theory Spec2Isabelle
  imports Complex_Main "HOL-Library.Sublist"
begin

section \<open>Serial bridge: the line handler of ArduinoHandler\<close>

text \<open>
  The bridge keeps the last counter pair (\<open>currentData\<close>) and the socket server
  (\<open>wss\<close>, \<open>null\<close> until \<open>initialize\<close> has run). The handler registered with
  \<open>parser.on("data")\<close> trims the line, searches it with the regular expression
  \<open>/E1:(-?\d+),E2:(-?\d+)/\<close>, reads both groups with \<open>parseInt(_, 10)\<close>, and
  broadcasts when the pair differs from the stored one.

  A \<open>char\<close> stands for one code unit of the line; counters are unbounded integers
  (the rounding of very long digit strings to a double is not modelled).
\<close>

record EncoderData =
  encoder1 :: int
  encoder2 :: int

datatype readyState = CONNECTING | OPEN | CLOSING | CLOSED

record client =
  client_id :: nat
  client_readyState :: readyState

text \<open>The message \<open>JSON.stringify({type: "encoder", data})\<close>.\<close>

datatype relay_message = Encoder_message EncoderData

record ArduinoHandler =
  currentData :: EncoderData
  wss :: "client list option"
  isConnected :: bool

text \<open>White space and line terminators removed by \<open>String.prototype.trim\<close>, as far as
  they are single code units below 256: TAB, LF, VT, FF, CR, SP and NBSP.\<close>

definition js_whitespace :: "char \<Rightarrow> bool" where
  "js_whitespace c = (of_char c \<in> {9, 10, 11, 12, 13, 32, 160 :: nat})"

definition trim :: "string \<Rightarrow> string" where
  "trim s = rev (dropWhile js_whitespace (rev (dropWhile js_whitespace s)))"

definition is_digit :: "char \<Rightarrow> bool" where
  "is_digit c = (48 \<le> (of_char c :: nat) \<and> (of_char c :: nat) \<le> 57)"

text \<open>\<open>prefix_rest p s\<close>: the literal \<open>p\<close> matched at the start of \<open>s\<close>, giving the rest.\<close>

fun prefix_rest :: "string \<Rightarrow> string \<Rightarrow> string option" where
  "prefix_rest [] s = Some s"
| "prefix_rest (p # ps) [] = None"
| "prefix_rest (p # ps) (c # cs) = (if p = c then prefix_rest ps cs else None)"

text \<open>The group \<open>(-?\d+)\<close>: an optional minus sign and the longest run of digits, at least
  one. Both quantifiers are greedy, and giving a character back never helps what follows
  (a digit run is followed by a non-digit or by the end), so the first attempt decides.\<close>

definition match_group :: "string \<Rightarrow> (string \<times> string) option" where
  "match_group s =
     (let (sign, r) = (case s of c # cs \<Rightarrow> if c = CHR ''-'' then ([c], cs) else ([], s) | [] \<Rightarrow> ([], s));
          ds = takeWhile is_digit r
      in if ds = [] then None else Some (sign @ ds, dropWhile is_digit r))"

definition match_here :: "string \<Rightarrow> (string \<times> string) option" where
  "match_here s =
     (case prefix_rest ''E1:'' s of None \<Rightarrow> None
      | Some r1 \<Rightarrow> (case match_group r1 of None \<Rightarrow> None
      | Some (g1, r2) \<Rightarrow> (case prefix_rest '',E2:'' r2 of None \<Rightarrow> None
      | Some r3 \<Rightarrow> (case match_group r3 of None \<Rightarrow> None
      | Some (g2, r4) \<Rightarrow> Some (g1, g2)))))"

text \<open>\<open>msg.match(re)\<close> without anchors: the leftmost position where the pattern matches.\<close>

fun regex_match :: "string \<Rightarrow> (string \<times> string) option" where
  "regex_match [] = match_here []"
| "regex_match (c # cs) =
     (case match_here (c # cs) of Some m \<Rightarrow> Some m | None \<Rightarrow> regex_match cs)"

definition digit_value :: "char \<Rightarrow> int" where
  "digit_value c = int (of_char c) - 48"

text \<open>\<open>parseInt(g, 10)\<close> on a group, which is a sign and digits by construction.\<close>

definition parseInt :: "string \<Rightarrow> int" where
  "parseInt g =
     (case g of c # cs \<Rightarrow>
        if c = CHR ''-'' then - foldl (\<lambda>a d. 10 * a + digit_value d) 0 cs
        else foldl (\<lambda>a d. 10 * a + digit_value d) 0 g
      | [] \<Rightarrow> 0)"

text \<open>\<open>broadcast\<close>: without a server nothing is sent; otherwise \<open>send\<close> is called on every
  client whose state is \<open>OPEN\<close>, in order (an exception of one \<open>send\<close> is caught and the
  loop goes on). The result lists the calls of \<open>send\<close>.\<close>

definition broadcast :: "ArduinoHandler \<Rightarrow> EncoderData \<Rightarrow> (nat \<times> relay_message) list" where
  "broadcast h d =
     (case wss h of None \<Rightarrow> []
      | Some clients \<Rightarrow>
          map (\<lambda>c. (client_id c, Encoder_message d))
            (filter (\<lambda>c. client_readyState c = OPEN) clients))"

definition on_data :: "ArduinoHandler \<Rightarrow> string \<Rightarrow> ArduinoHandler \<times> (nat \<times> relay_message) list" where
  "on_data h line =
     (let msg = trim line in
      case regex_match msg of
        Some (g1, g2) \<Rightarrow>
          (let e1 = parseInt g1; e2 = parseInt g2 in
           if encoder1 (currentData h) \<noteq> e1 \<or> encoder2 (currentData h) \<noteq> e2
           then (let h' = h\<lparr>currentData := \<lparr>encoder1 = e1, encoder2 = e2\<rparr>\<rparr>
                 in (h', broadcast h' (currentData h')))
           else (h, []))
      | None \<Rightarrow> (h, []))"

text \<open>The lines of the serial stream, handled one after the other; the sends accumulate.\<close>

fun on_lines :: "ArduinoHandler \<Rightarrow> string list \<Rightarrow> ArduinoHandler \<times> (nat \<times> relay_message) list" where
  "on_lines h [] = (h, [])"
| "on_lines h (l # ls) =
     (let (h1, out1) = on_data h l; (h2, out2) = on_lines h1 ls in (h2, out1 @ out2))"

subsection \<open>The frame's shape as the specification words it\<close>

text \<open>
  These three definitions follow the specification, not the handler: a tick frame has the
  shape \<open>E1:<int>,E2:<int>\<close>, where \<open><int>\<close> is an optional minus sign and one or more
  decimal digits. They are what the handler's regular expression is compared with.
\<close>

definition frame_shape_int :: "string \<Rightarrow> bool" where
  "frame_shape_int g =
     (case g of [] \<Rightarrow> False
      | c # cs \<Rightarrow> if c = CHR ''-'' then cs \<noteq> [] \<and> list_all is_digit cs
                  else list_all is_digit g)"

text \<open>The whole text is one frame. No \<open><int>\<close> holds a comma, so the first integer ends
  at the first comma.\<close>

definition frame_shape :: "string \<Rightarrow> bool" where
  "frame_shape s =
     (case prefix_rest ''E1:'' s of None \<Rightarrow> False
      | Some r \<Rightarrow>
          frame_shape_int (takeWhile (\<lambda>c. c \<noteq> CHR '','') r)
          \<and> (case prefix_rest '',E2:'' (dropWhile (\<lambda>c. c \<noteq> CHR '','') r) of
                None \<Rightarrow> False
              | Some g2 \<Rightarrow> frame_shape_int g2))"

text \<open>Some run of consecutive characters of the line is a frame.\<close>

definition contains_frame_shape :: "string \<Rightarrow> bool" where
  "contains_frame_shape s = list_ex frame_shape (sublists s)"

section \<open>Viewer page: the state of the Frame component\<close>

text \<open>
  The component's \<open>useState\<close> values and \<open>useRef\<close> cells, and the \<open>needsSync\<close> flag of
  the current socket's closure. Angles are JavaScript numbers; they are modelled as reals,
  so the rounding of doubles is outside the model. An array element is \<open>Some w\<close> for the
  string \<open>w\<close> and \<open>None\<close> for \<open>undefined\<close>, which is what reading past the end gives.
\<close>

type_synonym jsword = "string option"

record frame_state =
  words :: "jsword list"
  mouseRotation :: real
  encoderRotation :: real
  isDragging :: bool
  lastAngleRef :: real
  rightMouseRotation :: real
  rightEncoderRotation :: real
  isRightDragging :: bool
  selectedWordIndex :: int
  lastRightAngleRef :: real
  lastRightRotationRef :: real
  lastEncoder1Ref :: int
  lastEncoder2Ref :: int
  needsSync :: bool
  currentVariations :: "jsword list"
  variationsFetchedForIndex :: "int option"
  isPredicting :: bool

definition rotation :: "frame_state \<Rightarrow> real" where
  "rotation s = mouseRotation s + encoderRotation s"

definition rightRotation :: "frame_state \<Rightarrow> real" where
  "rightRotation s = rightMouseRotation s + rightEncoderRotation s"

text \<open>\<open>xs[i]\<close> reads \<open>undefined\<close> outside the array.\<close>

definition js_index :: "jsword list \<Rightarrow> int \<Rightarrow> jsword" where
  "js_index xs i = (if 0 \<le> i \<and> i < int (length xs) then xs ! nat i else None)"

text \<open>\<open>xs[i] = v\<close> on a copy: past the end the array grows and the gap reads \<open>undefined\<close>;
  a negative index is no element of the array, whose elements stay as they are.\<close>

definition js_assign :: "jsword list \<Rightarrow> int \<Rightarrow> jsword \<Rightarrow> jsword list" where
  "js_assign xs i v =
     (if 0 \<le> i \<and> i < int (length xs) then xs[nat i := v]
      else if int (length xs) \<le> i then xs @ replicate (nat i - length xs) None @ [v]
      else xs)"

text \<open>\<open>xs.join(' ')\<close>: \<open>undefined\<close> is joined as the empty string.\<close>

fun js_join :: "jsword list \<Rightarrow> string" where
  "js_join [] = []"
| "js_join [w] = (case w of None \<Rightarrow> [] | Some t \<Rightarrow> t)"
| "js_join (w # v # ws) = (case w of None \<Rightarrow> [] | Some t \<Rightarrow> t) @ '' '' @ js_join (v # ws)"

text \<open>\<open>s.split(' ')\<close>.\<close>

fun split_space :: "string \<Rightarrow> string list" where
  "split_space [] = [[]]"
| "split_space (c # cs) =
     (if c = CHR '' '' then [] # split_space cs
      else (case split_space cs of [] \<Rightarrow> [[c]] | w # ws \<Rightarrow> (c # w) # ws))"

definition INITIAL_SENTENCE :: string where
  "INITIAL_SENTENCE = ''We remain lingering this evening near the glassframe since the lunar lantern carries an excess of tender radiance''"

text \<open>The values of the first render.\<close>

definition initial_render :: frame_state where
  "initial_render =
     \<lparr>words = map Some (split_space INITIAL_SENTENCE),
      mouseRotation = 0, encoderRotation = 0, isDragging = False, lastAngleRef = 0,
      rightMouseRotation = 0, rightEncoderRotation = 0, isRightDragging = False,
      selectedWordIndex = 0, lastRightAngleRef = 0, lastRightRotationRef = 0,
      lastEncoder1Ref = 0, lastEncoder2Ref = 0, needsSync = True,
      currentVariations = [], variationsFetchedForIndex = None, isPredicting = False\<rparr>"

subsection \<open>Calls of the variant provider\<close>

record request =
  req_word :: jsword
  req_context :: string
  req_position :: int

text \<open>A call in flight keeps what its callbacks captured: the variant fetch the original
  word and the cursor of the render that issued it, the prediction that render's
  \<open>words.length\<close>.\<close>

datatype fetch_call =
    Variations_call request jsword int
  | Predict_call request nat

text \<open>How a call settles: \<open>Resolved d\<close> is a parsed body whose \<open>variations\<close> field is
  \<open>d\<close> (\<open>None\<close> when the field is missing); \<open>Rejected\<close> is everything that ends in
  \<open>.catch\<close> (network error, a body that is not JSON or is \<open>null\<close>).\<close>

datatype response = Resolved "string list option" | Rejected

subsection \<open>The effects, each reading the render it was created in\<close>

text \<open>
  An effect reads the state of its render (\<open>snap\<close>); its \<open>set...\<close> calls are queued, and an
  updater function gets the pending value (\<open>cur\<close>). A \<open>useRef\<close> cell is read and written
  at once (\<open>cur\<close>).
\<close>

definition resetVariationsEffect :: "frame_state \<Rightarrow> frame_state \<Rightarrow> frame_state" where
  "resetVariationsEffect snap cur =
     cur\<lparr>currentVariations := [js_index (words snap) (selectedWordIndex snap)],
         variationsFetchedForIndex := None\<rparr>"

definition leftDialEffect :: "frame_state \<Rightarrow> frame_state \<Rightarrow> frame_state \<times> fetch_call list" where
  "leftDialEffect snap cur =
     (if variationsFetchedForIndex snap \<noteq> Some (selectedWordIndex snap) then
        (let originalWord = js_index (words snap) (selectedWordIndex snap) in
         (cur, [Variations_call
                  \<lparr>req_word = originalWord, req_context = js_join (words snap),
                   req_position = selectedWordIndex snap\<rparr>
                  originalWord (selectedWordIndex snap)]))
      else if length (currentVariations snap) = 0 then (cur, [])
      else
        (let threshold = 60;
             variationIdx = \<lfloor>\<bar>rotation snap\<bar> / threshold\<rfloor> mod int (length (currentVariations snap))
         in if variationIdx \<ge> 0 \<and> variationIdx < int (length (currentVariations snap)) then
              (let selectedVariation = currentVariations snap ! nat variationIdx in
               (cur\<lparr>words :=
                     (if js_index (words cur) (selectedWordIndex snap) = selectedVariation
                      then words cur
                      else js_assign (words cur) (selectedWordIndex snap) selectedVariation)\<rparr>,
                []))
            else (cur, [])))"

definition rightDialEffect :: "frame_state \<Rightarrow> frame_state \<Rightarrow> frame_state" where
  "rightDialEffect snap cur =
     (let rotationChange = rightRotation snap - lastRightRotationRef cur;
          threshold = 60;
          steps = \<lfloor>\<bar>rotationChange\<bar> / threshold\<rfloor>
      in if steps > 0 then
           (let direction = (if rotationChange > 0 then 1 else - 1);
                newIndex = selectedWordIndex cur + steps * direction
            in cur\<lparr>selectedWordIndex :=
                     (if newIndex < 0 then 0
                      else if newIndex \<ge> int (length (words snap)) then int (length (words snap))
                      else newIndex),
                   lastRightRotationRef :=
                     lastRightRotationRef cur + of_int (steps * 60 * direction)\<rparr>)
         else cur)"

definition predictEffect :: "frame_state \<Rightarrow> frame_state \<Rightarrow> frame_state \<times> fetch_call list" where
  "predictEffect snap cur =
     (if selectedWordIndex snap \<ge> int (length (words snap)) \<and> \<not> isPredicting snap then
        (cur\<lparr>isPredicting := True\<rparr>,
         [Predict_call
            \<lparr>req_word = Some ''[PREDICT]'', req_context = js_join (words snap) @ '' [MASK]'',
             req_position = int (length (words snap))\<rparr>
            (length (words snap))])
      else (cur, []))"

subsection \<open>The callbacks of the two fetches\<close>

definition variationsSettled :: "jsword \<Rightarrow> int \<Rightarrow> response \<Rightarrow> frame_state \<Rightarrow> frame_state" where
  "variationsSettled originalWord idx r s =
     (case r of
        Rejected \<Rightarrow> s
      | Resolved d \<Rightarrow>
          (let s1 = (case d of
                       None \<Rightarrow> s
                     | Some vs \<Rightarrow>
                         if length vs > 0
                         then s\<lparr>currentVariations := originalWord # map Some vs\<rparr>
                         else s)
           in s1\<lparr>variationsFetchedForIndex := Some idx\<rparr>))"

definition predictionSettled :: "nat \<Rightarrow> response \<Rightarrow> frame_state \<Rightarrow> frame_state" where
  "predictionSettled len r s =
     (case r of
        Rejected \<Rightarrow> s\<lparr>isPredicting := False, selectedWordIndex := int len - 1\<rparr>
      | Resolved d \<Rightarrow>
          (let s1 = (case d of
                       None \<Rightarrow> s
                     | Some vs \<Rightarrow>
                         (case vs of
                            [] \<Rightarrow> s
                          | predictedWord # _ \<Rightarrow>
                              s\<lparr>words := words s @ [Some predictedWord],
                                currentVariations := map Some vs,
                                variationsFetchedForIndex := Some (int len)\<rparr>))
           in s1\<lparr>isPredicting := False\<rparr>))"

definition settle :: "fetch_call \<Rightarrow> response \<Rightarrow> frame_state \<Rightarrow> frame_state" where
  "settle c r s =
     (case c of
        Variations_call q originalWord idx \<Rightarrow> variationsSettled originalWord idx r s
      | Predict_call q len \<Rightarrow> predictionSettled len r s)"

subsection \<open>The socket's message handler\<close>

datatype ws_message = Encoder_data int int | Other_message

definition applyEncoder1 :: "int \<Rightarrow> frame_state \<Rightarrow> frame_state" where
  "applyEncoder1 e1 s =
     (if e1 \<noteq> lastEncoder1Ref s then
        (let delta = e1 - lastEncoder1Ref s;
             s1 = (if \<bar>delta\<bar> > 100 then s\<lparr>encoderRotation := of_int e1 * 3.6\<rparr>
                   else s\<lparr>encoderRotation := encoderRotation s + of_int delta * 3.6\<rparr>)
         in s1\<lparr>lastEncoder1Ref := e1\<rparr>)
      else s)"

definition applyEncoder2 :: "int \<Rightarrow> frame_state \<Rightarrow> frame_state" where
  "applyEncoder2 e2 s =
     (if e2 \<noteq> lastEncoder2Ref s then
        (let delta = e2 - lastEncoder2Ref s;
             s1 = (if \<bar>delta\<bar> > 100 then s\<lparr>rightEncoderRotation := of_int e2 * 3.6\<rparr>
                   else s\<lparr>rightEncoderRotation := rightEncoderRotation s + of_int delta * 3.6\<rparr>)
         in s1\<lparr>lastEncoder2Ref := e2\<rparr>)
      else s)"

definition onmessage :: "ws_message \<Rightarrow> frame_state \<Rightarrow> frame_state" where
  "onmessage m s =
     (case m of
        Other_message \<Rightarrow> s
      | Encoder_data e1 e2 \<Rightarrow>
          if needsSync s then
            s\<lparr>encoderRotation := of_int e1 * 3.6,
              rightEncoderRotation := of_int e2 * 3.6,
              lastEncoder1Ref := e1, lastEncoder2Ref := e2, needsSync := False\<rparr>
          else applyEncoder2 e2 (applyEncoder1 e1 s))"

subsection \<open>The mouse handlers\<close>

text \<open>The angle of the pointer about the panel's centre (\<open>getAngle\<close>, in degrees) is the
  handlers' input.\<close>

definition normalize_delta :: "real \<Rightarrow> real" where
  "normalize_delta d =
     (let d1 = (if d > 180 then d - 360 else d) in
      if d1 < - 180 then d1 + 360 else d1)"

definition handleMouseDown :: "real \<Rightarrow> frame_state \<Rightarrow> frame_state" where
  "handleMouseDown a s = s\<lparr>isDragging := True, lastAngleRef := a\<rparr>"

definition handleMouseMove :: "real \<Rightarrow> frame_state \<Rightarrow> frame_state" where
  "handleMouseMove a s =
     (if isDragging s then
        s\<lparr>mouseRotation := mouseRotation s + normalize_delta (a - lastAngleRef s),
          lastAngleRef := a\<rparr>
      else s)"

definition handleMouseUp :: "frame_state \<Rightarrow> frame_state" where
  "handleMouseUp s = s\<lparr>isDragging := False\<rparr>"

definition handleRightMouseDown :: "real \<Rightarrow> frame_state \<Rightarrow> frame_state" where
  "handleRightMouseDown a s = s\<lparr>isRightDragging := True, lastRightAngleRef := a\<rparr>"

definition handleRightMouseMove :: "real \<Rightarrow> frame_state \<Rightarrow> frame_state" where
  "handleRightMouseMove a s =
     (if isRightDragging s then
        s\<lparr>rightMouseRotation := rightMouseRotation s + normalize_delta (a - lastRightAngleRef s),
          lastRightAngleRef := a\<rparr>
      else s)"

definition handleRightMouseUp :: "frame_state \<Rightarrow> frame_state" where
  "handleRightMouseUp s = s\<lparr>isRightDragging := False\<rparr>"

subsection \<open>Rendering: effects run until the state is stable\<close>

text \<open>
  After an event's handler has updated the state the component renders again and the
  effects whose dependencies changed run, in the order they are declared; their updates
  give the next render. On the first render (\<open>prev = None\<close>) every effect runs.
  The updates made by one handler or callback are applied together before the next
  render (React 18 batches them, also in promise callbacks). Rendering stops when a pass
  of the effects leaves the state as it was; when only a \<open>useRef\<close> cell was written the
  model makes one more pass, in which no dependency has changed and nothing runs.
  Dependencies are compared by value; for \<open>words\<close> this is the comparison of the arrays'
  identities, since every array the component stores differs in content from the one it
  replaces.
\<close>

definition changed :: "frame_state option \<Rightarrow> frame_state \<Rightarrow> (frame_state \<Rightarrow> 'a) \<Rightarrow> bool" where
  "changed prev snap f = (case prev of None \<Rightarrow> True | Some p \<Rightarrow> f p \<noteq> f snap)"

definition run_effects :: "frame_state option \<Rightarrow> frame_state \<Rightarrow> frame_state \<times> fetch_call list" where
  "run_effects prev snap =
     (let c1 = (if changed prev snap selectedWordIndex
                then resetVariationsEffect snap snap else snap);
          (c2, f2) = (if changed prev snap rotation
                      then leftDialEffect snap c1 else (c1, []));
          c3 = (if changed prev snap rightRotation \<or> changed prev snap (\<lambda>s. length (words s))
                then rightDialEffect snap c2 else c2);
          (c4, f4) = (if changed prev snap selectedWordIndex \<or> changed prev snap words
                         \<or> changed prev snap isPredicting
                      then predictEffect snap c3 else (c3, []))
      in (c4, f2 @ f4))"

text \<open>\<open>flush n prev snap\<close>: at most \<open>n\<close> renders; \<open>None\<close> when the state is not stable by
  then.\<close>

fun flush :: "nat \<Rightarrow> frame_state option \<Rightarrow> frame_state \<Rightarrow> (frame_state \<times> fetch_call list) option" where
  "flush 0 prev snap = None"
| "flush (Suc n) prev snap =
     (let (cur, fs) = run_effects prev snap in
      if cur = snap then Some (cur, fs)
      else (case flush n (Some snap) cur of
              None \<Rightarrow> None
            | Some (s, gs) \<Rightarrow> Some (s, fs @ gs)))"

subsection \<open>Events\<close>

datatype event =
    MouseDown real | MouseMove real | MouseUp
  | RightMouseDown real | RightMouseMove real | RightMouseUp
  | WsOpen | WsMessage ws_message
  | FetchSettled nat response

text \<open>The handler of an event, on the state and the calls in flight. \<open>FetchSettled i r\<close>
  settles the \<open>i\<close>-th call in flight with \<open>r\<close>. A new socket starts with
  \<open>needsSync = true\<close>.\<close>

definition dispatch :: "event \<Rightarrow> frame_state \<times> fetch_call list \<Rightarrow> (frame_state \<times> fetch_call list) option" where
  "dispatch e c =
     (case c of (s, pending) \<Rightarrow>
       (case e of
          MouseDown a \<Rightarrow> Some (handleMouseDown a s, pending)
        | MouseMove a \<Rightarrow> Some (handleMouseMove a s, pending)
        | MouseUp \<Rightarrow> Some (handleMouseUp s, pending)
        | RightMouseDown a \<Rightarrow> Some (handleRightMouseDown a s, pending)
        | RightMouseMove a \<Rightarrow> Some (handleRightMouseMove a s, pending)
        | RightMouseUp \<Rightarrow> Some (handleRightMouseUp s, pending)
        | WsOpen \<Rightarrow> Some (s\<lparr>needsSync := True\<rparr>, pending)
        | WsMessage m \<Rightarrow> Some (onmessage m s, pending)
        | FetchSettled i r \<Rightarrow>
            if i < length pending
            then Some (settle (pending ! i) r s, take i pending @ drop (Suc i) pending)
            else None))"

text \<open>\<open>react n e c\<close>: the handler, then the renders it causes.\<close>

definition react :: "nat \<Rightarrow> event \<Rightarrow> frame_state \<times> fetch_call list \<Rightarrow> (frame_state \<times> fetch_call list) option" where
  "react n e c =
     (case dispatch e c of
        None \<Rightarrow> None
      | Some (s1, pending1) \<Rightarrow>
          (case flush n (Some (fst c)) s1 of
             None \<Rightarrow> None
           | Some (s2, calls) \<Rightarrow> Some (s2, pending1 @ calls)))"

inductive reachable :: "frame_state \<times> fetch_call list \<Rightarrow> bool" where
  mount: "flush n None initial_render = Some c \<Longrightarrow> reachable c"
| event: "reachable c \<Longrightarrow> react n e c = Some c' \<Longrightarrow> reachable c'"

subsection \<open>Sequences of events and of right-dial angles\<close>

text \<open>Events are handled in the order they arrive, each with at most \<open>n\<close> renders.\<close>

fun run_events :: "nat \<Rightarrow> event list \<Rightarrow> frame_state \<times> fetch_call list \<Rightarrow> (frame_state \<times> fetch_call list) option" where
  "run_events n [] c = Some c"
| "run_events n (e # es) c =
     (case react n e c of None \<Rightarrow> None | Some c' \<Rightarrow> run_events n es c')"

text \<open>A change \<open>d\<close> of the right dial's angle, followed by the right-dial effect of the
  render that sees it.\<close>

definition turnRight :: "real \<Rightarrow> frame_state \<Rightarrow> frame_state" where
  "turnRight d s =
     (let s1 = s\<lparr>rightMouseRotation := rightMouseRotation s + d\<rparr> in rightDialEffect s1 s1)"




text \<open>The signed number of positions the right-dial effect moves for a change \<open>c\<close> of the
  angle since the last consumed one: \<open>steps * direction\<close>.\<close>

definition move :: "real \<Rightarrow> int" where
  "move c = \<lfloor>\<bar>c\<bar> / 60\<rfloor> * (if c > 0 then 1 else - 1)"

subsection \<open>States used as examples\<close>

text \<open>The page once mounted: every effect has run on the first render, so the variant
  list holds the first word and the left-dial effect has issued its first fetch.\<close>

definition mounted :: "frame_state \<times> fetch_call list" where
  "mounted =
     (initial_render\<lparr>currentVariations := [Some ''We'']\<rparr>,
      [Variations_call
         \<lparr>req_word = Some ''We'', req_context = INITIAL_SENTENCE, req_position = 0\<rparr>
         (Some ''We'') 0])"

text \<open>The mounted page after the right dial was dragged forward by 300 degrees (the
  pointer going from 0 to 120, on to -120 and to -60 degrees about the panel's centre):
  the cursor is on "near", the word at index 5, and nothing is left over.\<close>

definition at_fifth_word :: frame_state where
  "at_fifth_word =
     initial_render\<lparr>rightMouseRotation := 300, isRightDragging := True,
       selectedWordIndex := 5, lastRightAngleRef := - 60, lastRightRotationRef := 300,
       currentVariations := [Some ''near'']\<rparr>"


text \<open>The cursor on the fifth word, its placeholder in the variant list.\<close>

definition stale_example :: frame_state where
  "stale_example =
     initial_render\<lparr>selectedWordIndex := 4, currentVariations := [Some ''evening'']\<rparr>"

text \<open>The mounted page after the cursor was moved to 2 with the right dial, the left dial
  was turned (which issued a fetch for the word at 2) and the cursor was moved on to 4:
  the variant list is the placeholder for the word at 4, the marker is clear, and the
  fetches for the positions 0 and 2 are in flight.\<close>

definition cursor_moved_on :: "frame_state \<times> fetch_call list" where
  "cursor_moved_on =
     (initial_render\<lparr>mouseRotation := 10, isDragging := True, lastAngleRef := 10,
        rightMouseRotation := 240, isRightDragging := True, selectedWordIndex := 4,
        lastRightAngleRef := - 120, lastRightRotationRef := 240,
        currentVariations := [Some ''evening'']\<rparr>,
      [Variations_call
         \<lparr>req_word = Some ''We'', req_context = INITIAL_SENTENCE, req_position = 0\<rparr>
         (Some ''We'') 0,
       Variations_call
         \<lparr>req_word = Some ''lingering'', req_context = INITIAL_SENTENCE, req_position = 2\<rparr>
         (Some ''lingering'') 2])"

text \<open>A bridge that has stored the pair 3, 4 and has one open viewer.\<close>

definition bridge_example :: ArduinoHandler where
  "bridge_example =
     \<lparr>currentData = \<lparr>encoder1 = 3, encoder2 = 4\<rparr>,
      wss = Some [\<lparr>client_id = 1, client_readyState = OPEN\<rparr>], isConnected = True\<rparr>"

text \<open>A three-word sentence with the cursor on its last word, the right dial held.\<close>

definition three_words :: frame_state where
  "three_words =
     initial_render\<lparr>words := [Some ''we'', Some ''stay'', Some ''here''], isRightDragging := True,
       selectedWordIndex := 2, currentVariations := [Some ''here'']\<rparr>"

text \<open>The mounted page after the relay's first message reported 300 detents on the right
  dial: the cursor is on the sentinel and the prediction is in flight.\<close>

definition at_sentinel :: "frame_state \<times> fetch_call list" where
  "at_sentinel =
     (initial_render\<lparr>rightEncoderRotation := 1080, selectedWordIndex := 18,
        lastRightRotationRef := 1080, lastEncoder2Ref := 300, needsSync := False,
        currentVariations := [None], isPredicting := True\<rparr>,
      [Variations_call
         \<lparr>req_word = Some ''We'', req_context = INITIAL_SENTENCE, req_position = 0\<rparr>
         (Some ''We'') 0,
       Predict_call
         \<lparr>req_word = Some ''[PREDICT]'', req_context = INITIAL_SENTENCE @ '' [MASK]'',
          req_position = 18\<rparr> 18])"

subsection \<open>Predicates of the cursor invariant\<close>

text \<open>The sentence is not empty and the cursor is a position of it or its length.\<close>

definition cursor_ok :: "frame_state \<Rightarrow> bool" where
  "cursor_ok s = (words s \<noteq> [] \<and> 0 \<le> selectedWordIndex s
                   \<and> selectedWordIndex s \<le> int (length (words s)))"

text \<open>A prediction in flight captured the length of a sentence that was not empty and has
  not become shorter since.\<close>

definition call_ok :: "frame_state \<Rightarrow> fetch_call \<Rightarrow> bool" where
  "call_ok s c =
     (case c of Predict_call q n \<Rightarrow> 1 \<le> n \<and> n \<le> length (words s)
      | Variations_call q w i \<Rightarrow> True)"

text \<open>The pending state \<open>c\<close> of a render \<open>snap\<close>: in range, its sentence no shorter.\<close>

definition grown :: "frame_state \<Rightarrow> frame_state \<Rightarrow> bool" where
  "grown snap c = (cursor_ok c \<and> length (words snap) \<le> length (words c))"

section \<open>Properties of the serial bridge\<close>

text \<open>The search fails exactly when the pattern matches at no position of the line.\<close>

lemma regex_match_None_iff:
  "regex_match s = None \<longleftrightarrow> (\<forall>i\<le>length s. match_here (drop i s) = None)"
proof (induction s)
  case Nil
  then show ?case by simp
next
  case (Cons c cs)
  have "(\<forall>i\<le>length (c # cs). match_here (drop i (c # cs)) = None) \<longleftrightarrow>
        match_here (c # cs) = None \<and> (\<forall>i\<le>length cs. match_here (drop i cs) = None)"
  proof
    assume all: "\<forall>i\<le>length (c # cs). match_here (drop i (c # cs)) = None"
    have "match_here (drop i cs) = None" if "i \<le> length cs" for i
      using all [rule_format, of "Suc i"] that by simp
    moreover have "match_here (c # cs) = None"
      using all [rule_format, of 0] by simp
    ultimately show "match_here (c # cs) = None \<and> (\<forall>i\<le>length cs. match_here (drop i cs) = None)"
      by simp
  next
    assume r: "match_here (c # cs) = None \<and> (\<forall>i\<le>length cs. match_here (drop i cs) = None)"
    show "\<forall>i\<le>length (c # cs). match_here (drop i (c # cs)) = None"
    proof (intro allI impI)
      fix i
      assume "i \<le> length (c # cs)"
      with r show "match_here (drop i (c # cs)) = None"
        by (cases i) simp_all
    qed
  qed
  with Cons.IH show ?case
    by (simp split: option.splits)
qed

lemma on_lines_append:
  "on_lines h (xs @ ys) =
     (let (h1, o1) = on_lines h xs; (h2, o2) = on_lines h1 ys in (h2, o1 @ o2))"
  by (induction xs arbitrary: h) (simp_all add: Let_def split: prod.splits)

subsection \<open>The handler's search and the frame's shape\<close>

lemma prefix_rest_Some: "prefix_rest p s = Some r \<longleftrightarrow> s = p @ r"
  by (induction p s rule: prefix_rest.induct) auto

lemma digit_not_special: "is_digit c \<Longrightarrow> c \<noteq> CHR '','' \<and> c \<noteq> CHR ''-''"
  by (auto simp add: is_digit_def)

lemma int_no_comma: "frame_shape_int g \<Longrightarrow> CHR '','' \<notin> set g"
  by (auto simp add: frame_shape_int_def list_all_iff dest: digit_not_special
      split: list.splits if_splits)

text \<open>What the group matches is an integer of the specification, and what is left does
  not go on with a digit.\<close>

lemma match_group_Some:
  assumes "match_group s = Some (g, r)"
  shows "s = g @ r" and "frame_shape_int g"
proof -
  define t where "t = (case s of c # cs \<Rightarrow> if c = CHR ''-'' then cs else s | [] \<Rightarrow> s)"
  define sg where "sg = (case s of c # cs \<Rightarrow> if c = CHR ''-'' then [c] else [] | [] \<Rightarrow> [])"
  have s: "s = sg @ t"
    by (simp add: sg_def t_def split: list.splits)
  have m: "match_group s =
      (if takeWhile is_digit t = [] then None
       else Some (sg @ takeWhile is_digit t, dropWhile is_digit t))"
    by (simp add: match_group_def sg_def t_def Let_def split: list.splits)
  from assms m have ne: "takeWhile is_digit t \<noteq> []"
    and g: "g = sg @ takeWhile is_digit t" and r: "r = dropWhile is_digit t"
    by (simp_all split: if_splits)
  show "s = g @ r"
    by (simp add: s g r)
  have digits: "list_all is_digit (takeWhile is_digit t)"
    by (simp add: list_all_iff) (metis set_takeWhileD)
  have sg_cases: "sg = [] \<or> sg = [CHR ''-'']"
    by (simp add: sg_def split: list.splits)
  from ne obtain d ds where td: "takeWhile is_digit t = d # ds"
    by (cases "takeWhile is_digit t") simp_all
  with digits have "is_digit d" by simp
  then have "d \<noteq> CHR ''-''" by (simp add: digit_not_special)
  with sg_cases digits td show "frame_shape_int g"
    by (auto simp add: g frame_shape_int_def)
qed

text \<open>An integer of the specification is matched by the group, which may take more
  digits after it.\<close>

lemma match_group_int:
  assumes "frame_shape_int g"
  shows "match_group (g @ r) = Some (g @ takeWhile is_digit r, dropWhile is_digit r)"
proof (cases g)
  case Nil
  with assms show ?thesis by (simp add: frame_shape_int_def)
next
  case (Cons c cs)
  show ?thesis
  proof (cases "c = CHR ''-''")
    case True
    with assms Cons have cs: "cs \<noteq> []" "list_all is_digit cs"
      by (simp_all add: frame_shape_int_def)
    then have "takeWhile is_digit (cs @ r) = cs @ takeWhile is_digit r"
      "dropWhile is_digit (cs @ r) = dropWhile is_digit r"
      by (simp_all add: list_all_iff takeWhile_append2 dropWhile_append2)
    with cs show ?thesis
      by (simp add: match_group_def Cons True Let_def)
  next
    case False
    with assms Cons have g: "list_all is_digit g"
      by (simp add: frame_shape_int_def)
    then have "takeWhile is_digit (g @ r) = g @ takeWhile is_digit r"
      "dropWhile is_digit (g @ r) = dropWhile is_digit r"
      by (simp_all add: list_all_iff takeWhile_append2 dropWhile_append2)
    moreover have "match_group (c # (cs @ r)) =
        (if takeWhile is_digit (c # (cs @ r)) = [] then None
         else Some (takeWhile is_digit (c # (cs @ r)), dropWhile is_digit (c # (cs @ r))))"
      using False by (simp add: match_group_def Let_def)
    ultimately show ?thesis
      by (simp add: Cons)
  qed
qed


lemma match_here_Some:
  assumes "match_here s = Some (g1, g2)"
  shows "\<exists>r. s = ''E1:'' @ g1 @ '',E2:'' @ g2 @ r \<and> frame_shape_int g1 \<and> frame_shape_int g2"
proof -
  from assms obtain r1 r2 r3 r4 where
    p1: "prefix_rest ''E1:'' s = Some r1" and m1: "match_group r1 = Some (g1, r2)"
    and p2: "prefix_rest '',E2:'' r2 = Some r3" and m2: "match_group r3 = Some (g2, r4)"
    by (auto simp add: match_here_def split: option.splits)
  from p1 have "s = ''E1:'' @ r1" by (simp only: prefix_rest_Some)
  moreover from match_group_Some [OF m1] have "r1 = g1 @ r2" "frame_shape_int g1" .
  moreover from p2 have "r2 = '',E2:'' @ r3" by (simp only: prefix_rest_Some)
  moreover from match_group_Some [OF m2] have "r3 = g2 @ r4" "frame_shape_int g2" .
  ultimately show ?thesis by auto
qed

lemma split_at_first:
  "x \<notin> set xs \<Longrightarrow> takeWhile (\<lambda>c. c \<noteq> x) (xs @ x # ys) = xs"
  "x \<notin> set xs \<Longrightarrow> dropWhile (\<lambda>c. c \<noteq> x) (xs @ x # ys) = x # ys"
  by (induction xs) auto

lemma frame_shape_iff:
  "frame_shape f \<longleftrightarrow>
     (\<exists>g1 g2. f = ''E1:'' @ g1 @ '',E2:'' @ g2 \<and> frame_shape_int g1 \<and> frame_shape_int g2)"
proof
  assume "frame_shape f"
  then obtain r g2 where
    p1: "prefix_rest ''E1:'' f = Some r"
    and i1: "frame_shape_int (takeWhile (\<lambda>c. c \<noteq> CHR '','') r)"
    and p2: "prefix_rest '',E2:'' (dropWhile (\<lambda>c. c \<noteq> CHR '','') r) = Some g2"
    and i2: "frame_shape_int g2"
    by (auto simp add: frame_shape_def split: option.splits)
  from p1 have "f = ''E1:'' @ r" by (simp only: prefix_rest_Some)
  moreover from p2 have "dropWhile (\<lambda>c. c \<noteq> CHR '','') r = '',E2:'' @ g2"
    by (simp only: prefix_rest_Some)
  moreover have "r = takeWhile (\<lambda>c. c \<noteq> CHR '','') r @ dropWhile (\<lambda>c. c \<noteq> CHR '','') r"
    by simp
  ultimately have "f = ''E1:'' @ takeWhile (\<lambda>c. c \<noteq> CHR '','') r @ '',E2:'' @ g2"
    by simp
  with i1 i2 show "\<exists>g1 g2. f = ''E1:'' @ g1 @ '',E2:'' @ g2 \<and> frame_shape_int g1 \<and> frame_shape_int g2"
    by blast
next
  assume "\<exists>g1 g2. f = ''E1:'' @ g1 @ '',E2:'' @ g2 \<and> frame_shape_int g1 \<and> frame_shape_int g2"
  then obtain g1 g2 where f: "f = ''E1:'' @ g1 @ '',E2:'' @ g2"
    and i1: "frame_shape_int g1" and i2: "frame_shape_int g2"
    by blast
  have p1: "prefix_rest ''E1:'' f = Some (g1 @ '',E2:'' @ g2)"
    by (simp add: prefix_rest_Some f)
  from int_no_comma [OF i1] have
    "takeWhile (\<lambda>c. c \<noteq> CHR '','') (g1 @ '',E2:'' @ g2) = g1"
    "dropWhile (\<lambda>c. c \<noteq> CHR '','') (g1 @ '',E2:'' @ g2) = '',E2:'' @ g2"
    by (simp_all add: split_at_first)
  moreover have "prefix_rest '',E2:'' ('',E2:'' @ g2) = Some g2"
    by (simp add: prefix_rest_Some)
  ultimately show "frame_shape f"
    using i1 i2 by (simp add: frame_shape_def p1)
qed

lemma frame_shape_matches:
  assumes "frame_shape f"
  shows "match_here (f @ post) \<noteq> None"
proof -
  from assms obtain g1 g2 where f: "f = ''E1:'' @ g1 @ '',E2:'' @ g2"
    and i1: "frame_shape_int g1" and i2: "frame_shape_int g2"
    by (auto simp add: frame_shape_iff)
  have p1: "prefix_rest ''E1:'' (f @ post) = Some (g1 @ ('',E2:'' @ g2 @ post))"
    by (simp add: prefix_rest_Some f)
  have m1: "match_group (g1 @ ('',E2:'' @ g2 @ post)) = Some (g1, '',E2:'' @ g2 @ post)"
    unfolding match_group_int [OF i1] by (simp add: is_digit_def)
  have p2: "prefix_rest '',E2:'' ('',E2:'' @ g2 @ post) = Some (g2 @ post)"
    by (simp add: prefix_rest_Some)
  have m2: "match_group (g2 @ post) = Some (g2 @ takeWhile is_digit post, dropWhile is_digit post)"
    by (rule match_group_int [OF i2])
  show ?thesis
    by (simp only: match_here_def p1 m1 p2 m2 option.case prod.case) simp
qed

lemma regex_match_iff_contains:
  "regex_match s \<noteq> None \<longleftrightarrow> contains_frame_shape s"
proof
  assume "regex_match s \<noteq> None"
  then obtain i g1 g2 where i: "i \<le> length s" and m: "match_here (drop i s) = Some (g1, g2)"
    by (auto simp add: regex_match_None_iff)
  from match_here_Some [OF m] obtain r where
    d: "drop i s = ''E1:'' @ g1 @ '',E2:'' @ g2 @ r"
    and ints: "frame_shape_int g1" "frame_shape_int g2"
    by blast
  define f where "f = ''E1:'' @ g1 @ '',E2:'' @ g2"
  have shape: "frame_shape f"
    using ints by (auto simp add: frame_shape_iff f_def)
  have "s = take i s @ drop i s" by simp
  also have "drop i s = f @ r" by (simp add: d f_def)
  finally have "sublist f s"
    by (metis sublist_appendI)
  with shape show "contains_frame_shape s"
    by (auto simp add: contains_frame_shape_def list_ex_iff)
next
  assume "contains_frame_shape s"
  then obtain f where shape: "frame_shape f" and sub: "sublist f s"
    by (auto simp add: contains_frame_shape_def list_ex_iff)
  from sub obtain pre post where s: "s = pre @ f @ post"
    by (auto simp add: sublist_def)
  have "drop (length pre) s = f @ post" by (simp add: s)
  with frame_shape_matches [OF shape, of post]
  have "match_here (drop (length pre) s) \<noteq> None" by simp
  moreover have "length pre \<le> length s" by (simp add: s)
  ultimately show "regex_match s \<noteq> None"
    by (auto simp add: regex_match_None_iff)
qed

lemma sublist_trim: "sublist (trim l) l"
proof -
  define d where "d = dropWhile js_whitespace l"
  have "l = takeWhile js_whitespace l @ d"
    by (simp add: d_def)
  moreover have "rev d = takeWhile js_whitespace (rev d) @ dropWhile js_whitespace (rev d)"
    by simp
  then have "d = rev (dropWhile js_whitespace (rev d)) @ rev (takeWhile js_whitespace (rev d))"
    by (metis rev_append rev_rev_ident)
  ultimately have "l = takeWhile js_whitespace l @ trim l @ rev (takeWhile js_whitespace (rev d))"
    by (simp add: trim_def d_def)
  then show ?thesis
    by (metis sublist_appendI)
qed

lemma dropWhile_keeps:
  assumes "\<not> P (hd f)" and "f \<noteq> []"
  shows "\<exists>pre'. dropWhile P (pre @ f @ post) = pre' @ f @ post"
proof -
  from assms obtain a f' where f: "f = a # f'" and a: "\<not> P a"
    by (cases f) auto
  have "dropWhile P (pre @ a # (f' @ post)) = dropWhile P pre @ a # (f' @ post)"
    using a by (rule dropWhile_append3)
  then show ?thesis by (auto simp add: f)
qed

lemma trim_keeps:
  assumes "\<not> js_whitespace (hd f)" and "\<not> js_whitespace (last f)" and "f \<noteq> []"
    and "sublist f l"
  shows "sublist f (trim l)"
proof -
  from assms(4) obtain pre post where l: "l = pre @ f @ post"
    by (auto simp add: sublist_def)
  from dropWhile_keeps [of js_whitespace f pre post, OF assms(1,3)] obtain pre' where
    d: "dropWhile js_whitespace l = pre' @ f @ post"
    unfolding l by blast
  have r: "rev (pre' @ f @ post) = rev post @ rev f @ rev pre'"
    by simp
  have "\<not> js_whitespace (hd (rev f))" "rev f \<noteq> []"
    using assms(2,3) by (simp_all add: hd_rev)
  from dropWhile_keeps [of js_whitespace "rev f" "rev post" "rev pre'", OF this] obtain post' where
    "dropWhile js_whitespace (rev post @ rev f @ rev pre') = post' @ rev f @ rev pre'"
    by blast
  then have "trim l = pre' @ f @ rev post'"
    by (simp add: trim_def d)
  then show ?thesis
    by (metis sublist_appendI)
qed

lemma int_ends_with_digit: "frame_shape_int g \<Longrightarrow> g \<noteq> [] \<and> is_digit (last g)"
  by (auto simp add: frame_shape_int_def list_all_iff split: list.splits if_splits)

lemma frame_shape_ends:
  assumes "frame_shape f"
  shows "f \<noteq> []" and "\<not> js_whitespace (hd f)" and "\<not> js_whitespace (last f)"
proof -
  from assms obtain g1 g2 where f: "f = ''E1:'' @ g1 @ '',E2:'' @ g2"
    and i2: "frame_shape_int g2"
    by (auto simp add: frame_shape_iff)
  from int_ends_with_digit [OF i2] have g2: "g2 \<noteq> []" "is_digit (last g2)"
    by simp_all
  show "f \<noteq> []" by (simp add: f)
  show "\<not> js_whitespace (hd f)" by (simp add: f js_whitespace_def)
  have "last f = last g2" using g2(1) by (simp add: f)
  with g2(2) show "\<not> js_whitespace (last f)"
    by (auto simp add: is_digit_def js_whitespace_def)
qed

lemma sublist_within: "sublist f t \<Longrightarrow> sublist t l \<Longrightarrow> sublist f l"
proof -
  assume "sublist f t" and "sublist t l"
  then obtain a b c d where "t = a @ f @ b" and "l = c @ t @ d"
    by (auto simp add: sublist_def)
  then have "l = (c @ a) @ f @ (b @ d)" by simp
  then show ?thesis by (metis sublist_appendI)
qed

lemma contains_frame_shape_trim: "contains_frame_shape (trim l) \<longleftrightarrow> contains_frame_shape l"
proof
  assume "contains_frame_shape (trim l)"
  then obtain f where "frame_shape f" "sublist f (trim l)"
    by (auto simp add: contains_frame_shape_def list_ex_iff)
  moreover from this(2) sublist_trim [of l] have "sublist f l"
    by (rule sublist_within)
  ultimately show "contains_frame_shape l"
    by (auto simp add: contains_frame_shape_def list_ex_iff)
next
  assume "contains_frame_shape l"
  then obtain f where shape: "frame_shape f" and sub: "sublist f l"
    by (auto simp add: contains_frame_shape_def list_ex_iff)
  from frame_shape_ends [OF shape] sub have "sublist f (trim l)"
    by (intro trim_keeps)
  with shape show "contains_frame_shape (trim l)"
    by (auto simp add: contains_frame_shape_def list_ex_iff)
qed

text \<open>
  C9, as the code has it. The handler does not ask whether the line is a frame; it
  searches the trimmed line for a frame anywhere in it. Its search fails exactly on the
  lines in which no run of consecutive characters has the shape \<open>E1:<int>,E2:<int>\<close>, and
  every such line is dropped: the handler returns the bridge as it was and sends nothing,
  and the lines after it are handled as if the line had not been there.
\<close>

theorem frameless_line_dropped:
  "(regex_match (trim l) = None \<longleftrightarrow> \<not> contains_frame_shape l)
   \<and> (\<not> contains_frame_shape l \<longrightarrow>
        on_data h l = (h, []) \<and> on_lines h (pre @ l # post) = on_lines h (pre @ post))"
proof -
  have test: "regex_match (trim l) = None \<longleftrightarrow> \<not> contains_frame_shape l"
  proof -
    have "regex_match (trim l) \<noteq> None \<longleftrightarrow> contains_frame_shape l"
      by (simp only: regex_match_iff_contains contains_frame_shape_trim)
    then show ?thesis by blast
  qed
  have dropped: "on_data h' l = (h', [])" if "\<not> contains_frame_shape l" for h'
    using that test by (simp add: on_data_def)
  have "on_lines h (pre @ l # post) = on_lines h (pre @ post)" if "\<not> contains_frame_shape l"
    by (simp add: dropped [OF that] on_lines_append Let_def split: prod.splits)
  with test dropped show ?thesis by blast
qed

theorem frameless_line_dropped_witness:
  "\<not> contains_frame_shape ''E1:12;E2:7''
   \<and> regex_match (trim ''E1:12;E2:7'') = None
   \<and> on_data bridge_example ''E1:12;E2:7'' = (bridge_example, [])"
proof -
  have no_frame: "\<not> contains_frame_shape ''E1:12;E2:7''"
    by code_simp
  from frameless_line_dropped [of "''E1:12;E2:7''" bridge_example "[]" "[]"] no_frame
  show ?thesis by blast
qed

text \<open>
  C9 as the specification states it does not hold: a line that is not of the shape
  \<open>E1:<int>,E2:<int>\<close> but holds a frame among other characters is stored and sent. With
  junk around the frame the pair -12, 34 is taken; from \<open>E1:5,E2:3.7\<close> the pair 5, 3.
\<close>

theorem embedded_frame_counterexample:
  "\<not> frame_shape (trim '' junkE1:-12,E2:0034tail '')
   \<and> on_data bridge_example '' junkE1:-12,E2:0034tail '' =
       (bridge_example\<lparr>currentData := \<lparr>encoder1 = - 12, encoder2 = 34\<rparr>\<rparr>,
        [(1, Encoder_message \<lparr>encoder1 = - 12, encoder2 = 34\<rparr>)])
   \<and> \<not> frame_shape (trim ''E1:5,E2:3.7'')
   \<and> on_data bridge_example ''E1:5,E2:3.7'' =
       (bridge_example\<lparr>currentData := \<lparr>encoder1 = 5, encoder2 = 3\<rparr>\<rparr>,
        [(1, Encoder_message \<lparr>encoder1 = 5, encoder2 = 3\<rparr>)])"
  by code_simp

text \<open>
  C10. For a line in which a tick frame is found: when the parsed pair equals the stored
  pair the bridge is unchanged and nothing is sent; otherwise the pair is stored and one
  message carrying it is sent to every viewer whose connection is open, and to no other.
\<close>

theorem broadcast_iff_changed:
  assumes "regex_match (trim l) = Some (g1, g2)"
  shows "on_data h l =
     (if encoder1 (currentData h) = parseInt g1 \<and> encoder2 (currentData h) = parseInt g2
      then (h, [])
      else (h\<lparr>currentData := \<lparr>encoder1 = parseInt g1, encoder2 = parseInt g2\<rparr>\<rparr>,
            map (\<lambda>c. (client_id c,
                       Encoder_message \<lparr>encoder1 = parseInt g1, encoder2 = parseInt g2\<rparr>))
              (filter (\<lambda>c. client_readyState c = OPEN)
                 (case wss h of None \<Rightarrow> [] | Some clients \<Rightarrow> clients))))"
  using assms by (simp add: on_data_def broadcast_def Let_def split: option.splits)

theorem broadcast_iff_changed_witness:
  "regex_match (trim ''E1:5,E2:-7'') = Some (''5'', ''-7'') \<and>
   on_data \<lparr>currentData = \<lparr>encoder1 = 0, encoder2 = 0\<rparr>,
            wss = Some [\<lparr>client_id = 1, client_readyState = OPEN\<rparr>,
                        \<lparr>client_id = 2, client_readyState = CLOSED\<rparr>,
                        \<lparr>client_id = 3, client_readyState = OPEN\<rparr>],
            isConnected = True\<rparr> ''E1:5,E2:-7'' =
     (\<lparr>currentData = \<lparr>encoder1 = 5, encoder2 = - 7\<rparr>,
       wss = Some [\<lparr>client_id = 1, client_readyState = OPEN\<rparr>,
                   \<lparr>client_id = 2, client_readyState = CLOSED\<rparr>,
                   \<lparr>client_id = 3, client_readyState = OPEN\<rparr>],
       isConnected = True\<rparr>,
      [(1, Encoder_message \<lparr>encoder1 = 5, encoder2 = - 7\<rparr>),
       (3, Encoder_message \<lparr>encoder1 = 5, encoder2 = - 7\<rparr>)])"
proof -
  have frame: "regex_match (trim ''E1:5,E2:-7'') = Some (''5'', ''-7'')"
    by (simp add: trim_def js_whitespace_def match_here_def match_group_def is_digit_def)
  have parsed: "parseInt ''5'' = 5" "parseInt ''-7'' = - 7"
    by (simp_all add: parseInt_def digit_value_def)
  show ?thesis
    using broadcast_iff_changed [OF frame] frame by (simp add: parsed)
qed

section \<open>Properties of the rotation fusion\<close>

text \<open>
  C1. The tick update of one dial (the block of the message handler for that counter): a
  counter equal to the recorded one leaves the dial's hardware contribution as it is; a
  jump of more than 100 sets it to 3.6 times the new counter; any other change adds 3.6
  times the difference. The mouse contributions and the other dial's hardware
  contribution and recorded counter are never touched. Once synchronised, the handler is
  the two blocks one after the other.
\<close>

theorem hardware_tick_update:
  "encoderRotation (applyEncoder1 e1 s) =
     (if e1 = lastEncoder1Ref s then encoderRotation s
      else if \<bar>e1 - lastEncoder1Ref s\<bar> > 100 then of_int e1 * 3.6
      else encoderRotation s + of_int (e1 - lastEncoder1Ref s) * 3.6)
   \<and> mouseRotation (applyEncoder1 e1 s) = mouseRotation s
   \<and> rightMouseRotation (applyEncoder1 e1 s) = rightMouseRotation s
   \<and> rightEncoderRotation (applyEncoder1 e1 s) = rightEncoderRotation s
   \<and> lastEncoder2Ref (applyEncoder1 e1 s) = lastEncoder2Ref s
   \<and> rightEncoderRotation (applyEncoder2 e2 s) =
     (if e2 = lastEncoder2Ref s then rightEncoderRotation s
      else if \<bar>e2 - lastEncoder2Ref s\<bar> > 100 then of_int e2 * 3.6
      else rightEncoderRotation s + of_int (e2 - lastEncoder2Ref s) * 3.6)
   \<and> rightMouseRotation (applyEncoder2 e2 s) = rightMouseRotation s
   \<and> mouseRotation (applyEncoder2 e2 s) = mouseRotation s
   \<and> encoderRotation (applyEncoder2 e2 s) = encoderRotation s
   \<and> lastEncoder1Ref (applyEncoder2 e2 s) = lastEncoder1Ref s
   \<and> onmessage (Encoder_data e1 e2) (s\<lparr>needsSync := False\<rparr>) =
       applyEncoder2 e2 (applyEncoder1 e1 (s\<lparr>needsSync := False\<rparr>))"
  by (simp add: onmessage_def applyEncoder1_def applyEncoder2_def Let_def)

text \<open>
  C7. The first message on a new connection sets both hardware contributions to 3.6 times
  the reported counters, whatever they were, and records the counters; a following message
  with the same counters changes nothing, and a following message that repeats one dial's
  counter leaves that dial's hardware contribution as it is.
\<close>

theorem resync_then_same_counter:
  "encoderRotation (onmessage (Encoder_data c1 c2) (s\<lparr>needsSync := True\<rparr>)) = of_int c1 * 3.6
   \<and> rightEncoderRotation (onmessage (Encoder_data c1 c2) (s\<lparr>needsSync := True\<rparr>)) = of_int c2 * 3.6
   \<and> lastEncoder1Ref (onmessage (Encoder_data c1 c2) (s\<lparr>needsSync := True\<rparr>)) = c1
   \<and> lastEncoder2Ref (onmessage (Encoder_data c1 c2) (s\<lparr>needsSync := True\<rparr>)) = c2
   \<and> onmessage (Encoder_data c1 c2) (onmessage (Encoder_data c1 c2) (s\<lparr>needsSync := True\<rparr>)) =
       onmessage (Encoder_data c1 c2) (s\<lparr>needsSync := True\<rparr>)
   \<and> encoderRotation
       (onmessage (Encoder_data c1 d2) (onmessage (Encoder_data c1 c2) (s\<lparr>needsSync := True\<rparr>))) =
       of_int c1 * 3.6
   \<and> rightEncoderRotation
       (onmessage (Encoder_data d1 c2) (onmessage (Encoder_data c1 c2) (s\<lparr>needsSync := True\<rparr>))) =
       of_int c2 * 3.6"
  by (simp add: onmessage_def applyEncoder1_def applyEncoder2_def Let_def)

section \<open>Properties of the selection state machine\<close>

subsection \<open>Arrays\<close>


lemma length_js_assign: "length xs \<le> length (js_assign xs i v)"
  by (auto simp add: js_assign_def)

subsection \<open>The mounted page\<close>

lemma mount_flush: "flush 2 None initial_render = Some mounted"
  by code_simp

subsection \<open>Word-variant cycling\<close>



text \<open>
  C3, as the code has it. The callback of a variant fetch has no test of the cursor: when
  the fetch was issued for cursor \<open>c\<close> and the cursor is elsewhere by the time it
  settles, a non-empty result still replaces the variant list (by the fetch's own word and
  the results) and the fetched-marker becomes \<open>c\<close>. The sentence and the cursor stay as
  they are, the marker differs from the cursor, and so the next change of the left dial
  writes no word and issues a new fetch for the word at the cursor. A rejected fetch
  changes nothing.
\<close>

theorem stale_result_tagged_with_origin:
  assumes "selectedWordIndex s \<noteq> c"
  shows "(let s' = settle (Variations_call q w c) (Resolved d) s in
          variationsFetchedForIndex s' = Some c
          \<and> currentVariations s' =
              (case d of None \<Rightarrow> currentVariations s
               | Some vs \<Rightarrow> if vs = [] then currentVariations s else w # map Some vs)
          \<and> words s' = words s
          \<and> selectedWordIndex s' = selectedWordIndex s
          \<and> variationsFetchedForIndex s' \<noteq> Some (selectedWordIndex s')
          \<and> fst (leftDialEffect s' s') = s'
          \<and> snd (leftDialEffect s' s') =
              [Variations_call
                 \<lparr>req_word = js_index (words s) (selectedWordIndex s),
                  req_context = js_join (words s),
                  req_position = selectedWordIndex s\<rparr>
                 (js_index (words s) (selectedWordIndex s)) (selectedWordIndex s)])
         \<and> settle (Variations_call q w c) Rejected s = s"
  using assms
  by (simp add: settle_def variationsSettled_def leftDialEffect_def Let_def
        split: option.splits)

theorem stale_result_tagged_with_origin_witness:
  "selectedWordIndex stale_example \<noteq> 2
   \<and> currentVariations
        (settle (Variations_call
                   \<lparr>req_word = Some ''lingering'', req_context = INITIAL_SENTENCE, req_position = 2\<rparr>
                   (Some ''lingering'') 2)
           (Resolved (Some [''staying''])) stale_example) = [Some ''lingering'', Some ''staying'']
   \<and> variationsFetchedForIndex
        (settle (Variations_call
                   \<lparr>req_word = Some ''lingering'', req_context = INITIAL_SENTENCE, req_position = 2\<rparr>
                   (Some ''lingering'') 2)
           (Resolved (Some [''staying''])) stale_example) = Some 2"
proof -
  have moved: "selectedWordIndex stale_example \<noteq> 2"
    by (simp add: stale_example_def initial_render_def)
  show ?thesis
    using stale_result_tagged_with_origin [OF moved,
        of "\<lparr>req_word = Some ''lingering'', req_context = INITIAL_SENTENCE, req_position = 2\<rparr>"
           "Some ''lingering''" "Some [''staying'']"] moved
    by (simp add: Let_def)
qed

text \<open>
  C3 as the specification states it does not hold: the page is mounted, the right dial
  moves the cursor to 2, the left dial is turned (a fetch for cursor 2 is issued), the
  right dial moves the cursor on to 4, where the variant list is the placeholder and the
  marker is clear; then the fetch for cursor 2 settles and both are overwritten.
\<close>

theorem stale_fetch_counterexample:
  "run_events 4 [RightMouseDown 0, RightMouseMove 120, MouseDown 0, MouseMove 10,
                 RightMouseMove (- 120)] mounted = Some cursor_moved_on
   \<and> selectedWordIndex (fst cursor_moved_on) = 4
   \<and> currentVariations (fst cursor_moved_on) = [Some ''evening'']
   \<and> variationsFetchedForIndex (fst cursor_moved_on) = None
   \<and> react 4 (FetchSettled 1 (Resolved (Some [''staying'']))) cursor_moved_on =
       Some ((fst cursor_moved_on)
               \<lparr>currentVariations := [Some ''lingering'', Some ''staying''],
                variationsFetchedForIndex := Some 2\<rparr>,
             [Variations_call
                \<lparr>req_word = Some ''We'', req_context = INITIAL_SENTENCE, req_position = 0\<rparr>
                (Some ''We'') 0])"
  by code_simp

subsection \<open>Sentence extension\<close>

text \<open>
  C5, evaluated on the code. A single message of the relay on a fresh connection turns the
  right dial by 1080 degrees, which puts the cursor on the sentinel 18 of the 18-word
  sentence and issues the prediction. When the provider answers with an empty list, the
  callback only clears the flag; the cursor is still 18, the effect sets the flag again
  and issues the same request once more, so the page is exactly where it was. When the
  call is rejected the cursor goes back to 17 and the flag is clear.
\<close>

theorem empty_prediction_keeps_sentinel:
  "run_events 4 [WsMessage (Encoder_data 0 300)] mounted = Some at_sentinel
   \<and> selectedWordIndex (fst at_sentinel) = 18
   \<and> length (words (fst at_sentinel)) = 18
   \<and> isPredicting (fst at_sentinel)
   \<and> predictionSettled 18 (Resolved (Some [])) (fst at_sentinel) =
       (fst at_sentinel)\<lparr>isPredicting := False\<rparr>
   \<and> react 4 (FetchSettled 1 (Resolved (Some []))) at_sentinel = Some at_sentinel
   \<and> react 4 (FetchSettled 1 Rejected) at_sentinel =
       Some ((fst at_sentinel)
               \<lparr>selectedWordIndex := 17, currentVariations := [Some ''radiance''],
                isPredicting := False\<rparr>,
             [Variations_call
                \<lparr>req_word = Some ''We'', req_context = INITIAL_SENTENCE, req_position = 0\<rparr>
                (Some ''We'') 0])"
  by code_simp

subsection \<open>Word-position navigation\<close>

lemma rightDialEffect_fields:
  "selectedWordIndex (rightDialEffect snap cur) =
     (let c = rightRotation snap - lastRightRotationRef cur;
          n = selectedWordIndex cur + move c
      in if 0 < \<lfloor>\<bar>c\<bar> / 60\<rfloor> then
           (if n < 0 then 0
            else if n \<ge> int (length (words snap)) then int (length (words snap)) else n)
         else selectedWordIndex cur)"
  "lastRightRotationRef (rightDialEffect snap cur) =
     lastRightRotationRef cur
       + 60 * of_int (move (rightRotation snap - lastRightRotationRef cur))"
  "words (rightDialEffect snap cur) = words cur"
  "rightMouseRotation (rightDialEffect snap cur) = rightMouseRotation cur"
  "rightEncoderRotation (rightDialEffect snap cur) = rightEncoderRotation cur"
proof -
  have k: "0 \<le> \<lfloor>\<bar>c\<bar> / 60\<rfloor>" for c :: real
    by simp
  have z: "move c = 0" if "\<not> 0 < \<lfloor>\<bar>c\<bar> / 60\<rfloor>" for c
  proof -
    from that k [of c] have "\<lfloor>\<bar>c\<bar> / 60\<rfloor> = 0" by linarith
    then show ?thesis unfolding move_def by (simp only: mult_zero_left)
  qed
  show "selectedWordIndex (rightDialEffect snap cur) =
     (let c = rightRotation snap - lastRightRotationRef cur;
          n = selectedWordIndex cur + move c
      in if 0 < \<lfloor>\<bar>c\<bar> / 60\<rfloor> then
           (if n < 0 then 0
            else if n \<ge> int (length (words snap)) then int (length (words snap)) else n)
         else selectedWordIndex cur)"
    unfolding rightDialEffect_def Let_def move_def by simp
  show "lastRightRotationRef (rightDialEffect snap cur) =
     lastRightRotationRef cur
       + 60 * of_int (move (rightRotation snap - lastRightRotationRef cur))"
  proof (cases "0 < \<lfloor>\<bar>rightRotation snap - lastRightRotationRef cur\<bar> / 60\<rfloor>")
    case True
    then show ?thesis
      unfolding rightDialEffect_def Let_def move_def by (simp del: zero_less_floor)
  next
    case False
    then show ?thesis
      unfolding rightDialEffect_def Let_def by (simp add: z del: zero_less_floor)
  qed
  show "words (rightDialEffect snap cur) = words cur"
    "rightMouseRotation (rightDialEffect snap cur) = rightMouseRotation cur"
    "rightEncoderRotation (rightDialEffect snap cur) = rightEncoderRotation cur"
    by (simp_all add: rightDialEffect_def Let_def)
qed















lemma fifth_word_reached:
  "run_events 4 [RightMouseDown 0, RightMouseMove 120, RightMouseMove (- 120),
                 RightMouseMove (- 60)] mounted = Some (at_fifth_word, snd mounted)"
  by code_simp








subsection \<open>Extension round trip\<close>

lemma step_floor: "0 \<le> r \<Longrightarrow> r < 60 \<Longrightarrow> \<lfloor>\<bar>r + 60\<bar> / 60 :: real\<rfloor> = 1"
  by (simp add: floor_eq_iff)

lemma rest_floor: "0 \<le> r \<Longrightarrow> r < 60 \<Longrightarrow> \<lfloor>\<bar>r\<bar> / 60 :: real\<rfloor> = 0"
  by (simp add: floor_eq_iff)

lemma extension_turn:
  assumes len: "length (words s) = 3"
    and cur: "selectedWordIndex s = 2"
    and idle: "\<not> isPredicting s"
    and drag: "isRightDragging s"
    and r0: "0 \<le> rightRotation s - lastRightRotationRef s"
    and r1: "rightRotation s - lastRightRotationRef s < 60"
    and turn: "normalize_delta (a - lastRightAngleRef s) = 60"
  shows "react 3 (RightMouseMove a) (s, pending) =
     Some (s\<lparr>rightMouseRotation := rightMouseRotation s + 60,
              lastRightAngleRef := a,
              selectedWordIndex := 3,
              lastRightRotationRef := lastRightRotationRef s + 60,
              currentVariations := [None],
              variationsFetchedForIndex := None,
              isPredicting := True\<rparr>,
           pending @ [Predict_call
              \<lparr>req_word = Some ''[PREDICT]'', req_context = js_join (words s) @ '' [MASK]'',
               req_position = 3\<rparr> 3])"
proof -
  define s1 where "s1 = s\<lparr>rightMouseRotation := rightMouseRotation s + 60,
              lastRightAngleRef := a\<rparr>"
  define s2 where "s2 = s1\<lparr>selectedWordIndex := 3, lastRightRotationRef := lastRightRotationRef s + 60\<rparr>"
  define s3 where "s3 = s2\<lparr>currentVariations := [None], variationsFetchedForIndex := None, isPredicting := True\<rparr>"
  define call where "call = Predict_call
              \<lparr>req_word = Some ''[PREDICT]'', req_context = js_join (words s) @ '' [MASK]'',
               req_position = 3\<rparr> 3"
  have d: "dispatch (RightMouseMove a) (s, pending) = Some (s1, pending)"
    using drag turn by (simp add: dispatch_def handleRightMouseMove_def s1_def)
  have c: "rightRotation s1 - lastRightRotationRef s1 = (rightRotation s - lastRightRotationRef s) + 60"
    by (simp add: s1_def rightRotation_def)
  have fl: "\<lfloor>\<bar>rightRotation s1 - lastRightRotationRef s1\<bar> / 60\<rfloor> = 1"
    unfolding c using r0 r1 by (rule step_floor)
  have pos: "rightRotation s1 - lastRightRotationRef s1 > 0"
    unfolding c using r0 by simp
  have e1: "rightDialEffect s1 s1 = s2"
    unfolding rightDialEffect_def Let_def fl using pos
    by (simp add: s2_def) (simp add: s1_def len cur)
  have round1: "run_effects (Some s) s1 = (s2, [])"
    unfolding run_effects_def Let_def
    by (simp add: changed_def e1) (simp add: s1_def rotation_def rightRotation_def)
  have ne12: "s2 \<noteq> s1"
  proof
    assume "s2 = s1"
    then have "selectedWordIndex s2 = selectedWordIndex s1" by simp
    then show False by (simp add: s2_def s1_def cur)
  qed
  have f2: "selectedWordIndex s2 = 3" "selectedWordIndex s1 = 2" "words s2 = words s"
    "isPredicting s2 = False" "isPredicting s1 = False" "words s1 = words s"
    "rotation s2 = rotation s1" "rightRotation s2 = rightRotation s1"
    by (simp_all add: s2_def s1_def cur idle rotation_def rightRotation_def)
  have reset2: "resetVariationsEffect s2 s2 = s2\<lparr>currentVariations := [None], variationsFetchedForIndex := None\<rparr>"
    by (simp add: resetVariationsEffect_def js_index_def f2 len)
  have predict2: "predictEffect s2 c = (c\<lparr>isPredicting := True\<rparr>, [call])" for c
    by (simp add: predictEffect_def f2 len call_def)
  have round2: "run_effects (Some s1) s2 = (s3, [call])"
    unfolding run_effects_def Let_def
    by (simp add: changed_def f2 len reset2 predict2 s3_def)
  have ne23: "s3 \<noteq> s2"
  proof
    assume "s3 = s2"
    then have "isPredicting s3 = isPredicting s2" by simp
    then show False by (simp add: s3_def f2)
  qed
  have f3: "selectedWordIndex s3 = selectedWordIndex s2" "words s3 = words s2" "isPredicting s3"
    "rotation s3 = rotation s2" "rightRotation s3 = rightRotation s2"
    by (simp_all add: s3_def rotation_def rightRotation_def)
  have round3: "run_effects (Some s2) s3 = (s3, [])"
    unfolding run_effects_def Let_def
    by (simp add: changed_def f3 predictEffect_def)
  have fl3: "flush 3 (Some s) s1 = Some (s3, [call])"
    by (simp add: numeral_3_eq_3 round1 round2 round3 ne12 ne23)
  have s3: "s3 = s\<lparr>rightMouseRotation := rightMouseRotation s + 60,
              lastRightAngleRef := a,
              selectedWordIndex := 3,
              lastRightRotationRef := lastRightRotationRef s + 60,
              currentVariations := [None],
              variationsFetchedForIndex := None,
              isPredicting := True\<rparr>"
    by (simp add: s3_def s2_def s1_def)
  show ?thesis
    unfolding react_def d s3 [symmetric] call_def [symmetric]
    by (simp add: fl3)
qed


lemma extension_success:
  assumes len: "length (words t) = 3"
    and cur: "selectedWordIndex t = 3"
    and r0: "0 \<le> rightRotation t - lastRightRotationRef t"
    and r1: "rightRotation t - lastRightRotationRef t < 60"
  shows "react 3 (FetchSettled (length pending) (Resolved (Some (w # vs))))
           (t, pending @ [Predict_call q 3]) =
     Some (t\<lparr>words := words t @ [Some w],
              currentVariations := map Some (w # vs),
              variationsFetchedForIndex := Some 3,
              isPredicting := False\<rparr>, pending)"
proof -
  define t1 where "t1 = t\<lparr>words := words t @ [Some w],
              currentVariations := map Some (w # vs),
              variationsFetchedForIndex := Some 3,
              isPredicting := False\<rparr>"
  have d: "dispatch (FetchSettled (length pending) (Resolved (Some (w # vs))))
             (t, pending @ [Predict_call q 3]) = Some (t1, pending)"
    by (simp add: dispatch_def settle_def predictionSettled_def t1_def)
  have f: "selectedWordIndex t1 = 3" "length (words t1) = 4"
    "rotation t1 = rotation t" "rightRotation t1 = rightRotation t"
    "lastRightRotationRef t1 = lastRightRotationRef t"
    by (simp_all add: t1_def cur len rotation_def rightRotation_def)
  have fl: "\<lfloor>\<bar>rightRotation t - lastRightRotationRef t\<bar> / 60\<rfloor> = 0"
    using r0 r1 by (rule rest_floor)
  have right: "rightDialEffect t1 t1 = t1"
    unfolding rightDialEffect_def Let_def f fl by simp
  have predict: "predictEffect t1 t1 = (t1, [])"
    by (simp add: predictEffect_def f)
  have round: "run_effects (Some t) t1 = (t1, [])"
    unfolding run_effects_def Let_def
    by (simp add: changed_def f cur right predict)
  have "flush 3 (Some t) t1 = Some (t1, [])"
    by (simp add: numeral_3_eq_3 round)
  then show ?thesis
    unfolding react_def d t1_def [symmetric] by simp
qed

text \<open>
  C4. From a three-word sentence with the cursor on index 2 (no prediction in flight, no
  backward remainder of the right dial), a drag of the right dial that the handler reads
  as +60 degrees puts the
  cursor on 3, the length of the sentence, and issues exactly one call of the provider:
  a prediction whose context is the sentence followed by the mask token. When that call
  answers with a list that starts with "word4", the sentence has four words with "word4"
  at index 3, the cursor is 3, the variant list is the whole answer, the fetched-marker
  is the old length 3, and nothing is in flight.
\<close>

theorem extension_round_trip:
  assumes len: "length (words s) = 3"
    and cur: "selectedWordIndex s = 2"
    and idle: "\<not> isPredicting s"
    and drag: "isRightDragging s"
    and r0: "0 \<le> rightRotation s - lastRightRotationRef s"
    and r1: "rightRotation s - lastRightRotationRef s < 60"
    and turn: "normalize_delta (a - lastRightAngleRef s) = 60"
  shows
    "(case react 3 (RightMouseMove a) (s, pending) of
        None \<Rightarrow> False
      | Some (s1, pending1) \<Rightarrow>
          pending1 = pending @ [Predict_call
              \<lparr>req_word = Some ''[PREDICT]'', req_context = js_join (words s) @ '' [MASK]'',
               req_position = 3\<rparr> 3]
          \<and> rightRotation s1 = rightRotation s + 60
          \<and> selectedWordIndex s1 = 3
          \<and> words s1 = words s
          \<and> (case react 3 (FetchSettled (length pending) (Resolved (Some (''word4'' # vs))))
                     (s1, pending1) of
                None \<Rightarrow> False
              | Some (s2, pending2) \<Rightarrow>
                  pending2 = pending
                  \<and> words s2 = words s @ [Some ''word4'']
                  \<and> length (words s2) = 4
                  \<and> js_index (words s2) 3 = Some ''word4''
                  \<and> selectedWordIndex s2 = 3
                  \<and> currentVariations s2 = map Some (''word4'' # vs)
                  \<and> variationsFetchedForIndex s2 = Some 3
                  \<and> \<not> isPredicting s2))"
proof -
  define t where "t = s\<lparr>rightMouseRotation := rightMouseRotation s + 60,
              lastRightAngleRef := a,
              selectedWordIndex := 3,
              lastRightRotationRef := lastRightRotationRef s + 60,
              currentVariations := [None],
              variationsFetchedForIndex := None,
              isPredicting := True\<rparr>"
  have ft: "length (words t) = 3" "selectedWordIndex t = 3" "words t = words s"
    "rightRotation t = rightRotation s + 60"
    "rightRotation t - lastRightRotationRef t = rightRotation s - lastRightRotationRef s"
    by (simp_all add: t_def len rightRotation_def)
  have b: "0 \<le> rightRotation t - lastRightRotationRef t" "rightRotation t - lastRightRotationRef t < 60"
    using r0 r1 by (simp_all only: ft(5))
  show ?thesis
    unfolding extension_turn [OF assms] t_def [symmetric]
    by (simp add: extension_success [OF ft(1,2) b] ft len js_index_def nth_append)
qed

theorem extension_round_trip_witness:
  "length (words three_words) = 3
   \<and> selectedWordIndex three_words = 2
   \<and> \<not> isPredicting three_words
   \<and> isRightDragging three_words
   \<and> 0 \<le> rightRotation three_words - lastRightRotationRef three_words
   \<and> rightRotation three_words - lastRightRotationRef three_words < 60
   \<and> normalize_delta (60 - lastRightAngleRef three_words) = 60
   \<and> (\<exists>s1 s2. react 3 (RightMouseMove 60) (three_words, []) =
          Some (s1, [Predict_call
              \<lparr>req_word = Some ''[PREDICT]'', req_context = ''we stay here [MASK]'',
               req_position = 3\<rparr> 3])
        \<and> selectedWordIndex s1 = 3
        \<and> react 3 (FetchSettled 0 (Resolved (Some [''word4'']))) (s1, [Predict_call
              \<lparr>req_word = Some ''[PREDICT]'', req_context = ''we stay here [MASK]'',
               req_position = 3\<rparr> 3]) = Some (s2, [])
        \<and> words s2 = [Some ''we'', Some ''stay'', Some ''here'', Some ''word4'']
        \<and> selectedWordIndex s2 = 3
        \<and> currentVariations s2 = [Some ''word4'']
        \<and> variationsFetchedForIndex s2 = Some 3)"
proof -
  have h: "length (words three_words) = 3" "selectedWordIndex three_words = 2"
    "\<not> isPredicting three_words" "isRightDragging three_words"
    "0 \<le> rightRotation three_words - lastRightRotationRef three_words"
    "rightRotation three_words - lastRightRotationRef three_words < 60"
    "normalize_delta (60 - lastRightAngleRef three_words) = 60"
    by (simp_all add: three_words_def initial_render_def rightRotation_def normalize_delta_def)
  have v: "words three_words = [Some ''we'', Some ''stay'', Some ''here'']"
    by (simp_all add: three_words_def initial_render_def)
  show ?thesis
    using extension_round_trip [OF h, of "[]" "[]"] h
    by (auto simp add: v split: option.splits)
qed

subsection \<open>The cursor stays within the sentence\<close>

lemma call_ok_grow: "call_ok s c \<Longrightarrow> length (words s) \<le> length (words t) \<Longrightarrow> call_ok t c"
  by (auto simp add: call_ok_def split: fetch_call.splits)

lemma reset_grown: "grown snap c \<Longrightarrow> grown snap (resetVariationsEffect snap c)"
  by (simp add: grown_def cursor_ok_def resetVariationsEffect_def)

lemma left_grown:
  assumes "grown snap c"
  shows "grown snap (fst (leftDialEffect snap c))" and "list_all (call_ok t) (snd (leftDialEffect snap c))"
proof -
  have le: "length (words c) \<le> length (js_assign (words c) i v)" for i v
    by (rule length_js_assign)
  have ne: "js_assign (words c) i v \<noteq> []" for i v
    using le [of i v] assms by (auto simp add: grown_def cursor_ok_def)
  have w: "length (words c) \<le> length (words (fst (leftDialEffect snap c)))"
    "words (fst (leftDialEffect snap c)) \<noteq> []"
    "selectedWordIndex (fst (leftDialEffect snap c)) = selectedWordIndex c"
    using assms le ne by (auto simp add: leftDialEffect_def Let_def grown_def cursor_ok_def)
  show "grown snap (fst (leftDialEffect snap c))"
    using assms w by (simp add: grown_def cursor_ok_def)
  show "list_all (call_ok t) (snd (leftDialEffect snap c))"
    by (simp add: leftDialEffect_def Let_def call_ok_def)
qed

lemma right_grown:
  assumes "grown snap c"
  shows "grown snap (rightDialEffect snap c)"
proof -
  have w: "words (rightDialEffect snap c) = words c"
    by (simp add: rightDialEffect_def Let_def)
  have "0 \<le> selectedWordIndex (rightDialEffect snap c) \<and>
        selectedWordIndex (rightDialEffect snap c) \<le> int (length (words c))"
    using assms by (auto simp add: rightDialEffect_def Let_def grown_def cursor_ok_def)
  then show ?thesis
    using assms by (simp add: grown_def cursor_ok_def w)
qed

lemma predict_grown:
  assumes "grown snap c" and "words snap \<noteq> []"
  shows "grown snap (fst (predictEffect snap c))"
    and "list_all (call_ok (fst (predictEffect snap c))) (snd (predictEffect snap c))"
  using assms
  by (auto simp add: predictEffect_def grown_def cursor_ok_def call_ok_def Suc_le_eq)

lemma run_effects_grown:
  assumes "cursor_ok snap"
  shows "grown snap (fst (run_effects prev snap))"
    and "list_all (call_ok (fst (run_effects prev snap))) (snd (run_effects prev snap))"
proof -
  define c1 where "c1 = (if changed prev snap selectedWordIndex
                then resetVariationsEffect snap snap else snap)"
  define l where "l = (if changed prev snap rotation
                      then leftDialEffect snap c1 else (c1, []))"
  define c3 where "c3 = (if changed prev snap rightRotation \<or> changed prev snap (\<lambda>s. length (words s))
                then rightDialEffect snap (fst l) else fst l)"
  define p where "p = (if changed prev snap selectedWordIndex \<or> changed prev snap words
                         \<or> changed prev snap isPredicting
                      then predictEffect snap c3 else (c3, []))"
  have r: "run_effects prev snap = (fst p, snd l @ snd p)"
    by (simp add: run_effects_def Let_def c1_def l_def c3_def p_def split: prod.splits)
  have ne: "words snap \<noteq> []" using assms by (simp add: cursor_ok_def)
  have g0: "grown snap snap" using assms by (simp add: grown_def)
  have g1: "grown snap c1" using g0 by (simp add: c1_def reset_grown)
  have g2: "grown snap (fst l)" and k2: "list_all (call_ok t) (snd l)" for t
    using g1 by (simp_all add: l_def left_grown)
  have g3: "grown snap c3" using g2 by (simp add: c3_def right_grown)
  have g4: "grown snap (fst p)" and k4: "list_all (call_ok (fst p)) (snd p)"
    using g3 ne by (simp_all add: p_def predict_grown)
  show "grown snap (fst (run_effects prev snap))"
    using g4 by (simp add: r)
  show "list_all (call_ok (fst (run_effects prev snap))) (snd (run_effects prev snap))"
    using k2 k4 by (simp add: r)
qed

lemma list_all_call_ok_grow:
  "list_all (call_ok s) cs \<Longrightarrow> length (words s) \<le> length (words t) \<Longrightarrow> list_all (call_ok t) cs"
  by (induction cs) (auto intro: call_ok_grow)

lemma flush_grown:
  assumes "cursor_ok snap" and "flush n prev snap = Some (s, cs)"
  shows "grown snap s \<and> list_all (call_ok s) cs"
  using assms
proof (induction n arbitrary: prev snap s cs)
  case 0
  then show ?case by simp
next
  case (Suc n)
  obtain cur fs where r: "run_effects prev snap = (cur, fs)"
    by (cases "run_effects prev snap")
  have g: "grown snap cur" and k: "list_all (call_ok cur) fs"
    using run_effects_grown [OF Suc.prems(1), of prev] by (simp_all add: r)
  show ?case
  proof (cases "cur = snap")
    case True
    with Suc.prems(2) r g k show ?thesis by simp
  next
    case False
    with Suc.prems(2) r obtain gs where
      fl: "flush n (Some snap) cur = Some (s, gs)" and cs: "cs = fs @ gs"
      by (auto split: option.splits)
    have ok: "cursor_ok cur" using g by (simp add: grown_def)
    from Suc.IH [OF ok fl] have g': "grown cur s" and k': "list_all (call_ok s) gs"
      by simp_all
    have "length (words cur) \<le> length (words s)" using g' by (simp add: grown_def)
    with k have "list_all (call_ok s) fs" by (rule list_all_call_ok_grow)
    with g g' k' cs show ?thesis by (simp add: grown_def)
  qed
qed

lemma call_ok_words: "words t = words s \<Longrightarrow> call_ok t = call_ok s"
  by (rule ext) (simp add: call_ok_def split: fetch_call.splits)

lemma cursor_ok_same:
  "words t = words s \<Longrightarrow> selectedWordIndex t = selectedWordIndex s \<Longrightarrow> cursor_ok t = cursor_ok s"
  by (simp add: cursor_ok_def)

lemma onmessage_same:
  "words (onmessage m s) = words s" "selectedWordIndex (onmessage m s) = selectedWordIndex s"
  by (simp_all add: onmessage_def applyEncoder1_def applyEncoder2_def Let_def split: ws_message.splits)

lemma settle_ok:
  assumes "cursor_ok s" and "call_ok s c"
  shows "cursor_ok (settle c r s) \<and> length (words s) \<le> length (words (settle c r s))"
proof (cases c)
  case (Variations_call q w i)
  then show ?thesis
    using assms(1)
    by (cases r) (auto simp add: settle_def variationsSettled_def cursor_ok_def Let_def split: option.splits)
next
  case (Predict_call q n)
  with assms(2) have n: "1 \<le> n" "n \<le> length (words s)"
    by (simp_all add: call_ok_def)
  show ?thesis
    using assms(1) n
    by (cases r) (auto simp add: Predict_call settle_def predictionSettled_def cursor_ok_def Let_def
          split: option.splits list.splits)
qed

lemma list_all_remove: "list_all P xs \<Longrightarrow> list_all P (take i xs @ drop (Suc i) xs)"
proof -
  assume a: "list_all P xs"
  have "set (take i xs @ drop (Suc i) xs) \<subseteq> set xs"
    using set_take_subset [of i xs] set_drop_subset [of "Suc i" xs] by auto
  with a show ?thesis by (auto simp add: list_all_iff)
qed

lemma same_sentence_ok:
  assumes "words t = words s" and "selectedWordIndex t = selectedWordIndex s"
    and "cursor_ok s" and "list_all (call_ok s) cs"
  shows "cursor_ok t \<and> list_all (call_ok t) cs"
  using assms by (simp add: cursor_ok_same [of t s] call_ok_words [of t s])

lemma dispatch_ok:
  assumes ok: "cursor_ok s" and calls: "list_all (call_ok s) pending"
    and d: "dispatch e (s, pending) = Some (s1, pending1)"
  shows "cursor_ok s1 \<and> list_all (call_ok s1) pending1"
proof (cases e)
  case (FetchSettled i r)
  with d have i: "i < length pending" and s1: "s1 = settle (pending ! i) r s"
    and p1: "pending1 = take i pending @ drop (Suc i) pending"
    by (auto simp add: dispatch_def split: if_splits)
  from calls i have "call_ok s (pending ! i)"
    by (simp add: list_all_length)
  from settle_ok [OF ok this, of r]
  have ok1: "cursor_ok s1" and le: "length (words s) \<le> length (words s1)"
    by (simp_all add: s1)
  have "list_all (call_ok s) pending1"
    unfolding p1 using calls by (rule list_all_remove)
  then have "list_all (call_ok s1) pending1"
    using le by (rule list_all_call_ok_grow)
  with ok1 show ?thesis by simp
next
  case (WsMessage m)
  with d have s1: "s1 = onmessage m s" and p1: "pending1 = pending"
    by (simp_all add: dispatch_def)
  show ?thesis
    unfolding s1 p1 by (rule same_sentence_ok [OF onmessage_same ok calls])
next
  case (MouseDown a)
  with d have s1: "s1 = handleMouseDown a s" and p1: "pending1 = pending"
    by (simp_all add: dispatch_def)
  show ?thesis
    unfolding s1 p1 by (rule same_sentence_ok [OF _ _ ok calls]) (simp_all add: handleMouseDown_def)
next
  case (MouseMove a)
  with d have s1: "s1 = handleMouseMove a s" and p1: "pending1 = pending"
    by (simp_all add: dispatch_def)
  show ?thesis
    unfolding s1 p1 by (rule same_sentence_ok [OF _ _ ok calls]) (simp_all add: handleMouseMove_def)
next
  case MouseUp
  with d have s1: "s1 = handleMouseUp s" and p1: "pending1 = pending"
    by (simp_all add: dispatch_def)
  show ?thesis
    unfolding s1 p1 by (rule same_sentence_ok [OF _ _ ok calls]) (simp_all add: handleMouseUp_def)
next
  case (RightMouseDown a)
  with d have s1: "s1 = handleRightMouseDown a s" and p1: "pending1 = pending"
    by (simp_all add: dispatch_def)
  show ?thesis
    unfolding s1 p1
    by (rule same_sentence_ok [OF _ _ ok calls]) (simp_all add: handleRightMouseDown_def)
next
  case (RightMouseMove a)
  with d have s1: "s1 = handleRightMouseMove a s" and p1: "pending1 = pending"
    by (simp_all add: dispatch_def)
  show ?thesis
    unfolding s1 p1
    by (rule same_sentence_ok [OF _ _ ok calls]) (simp_all add: handleRightMouseMove_def)
next
  case RightMouseUp
  with d have s1: "s1 = handleRightMouseUp s" and p1: "pending1 = pending"
    by (simp_all add: dispatch_def)
  show ?thesis
    unfolding s1 p1
    by (rule same_sentence_ok [OF _ _ ok calls]) (simp_all add: handleRightMouseUp_def)
next
  case WsOpen
  with d have s1: "s1 = s\<lparr>needsSync := True\<rparr>" and p1: "pending1 = pending"
    by (simp_all add: dispatch_def)
  show ?thesis
    unfolding s1 p1 by (rule same_sentence_ok [OF _ _ ok calls]) simp_all
qed

lemma initial_ok: "cursor_ok initial_render"
  by (simp add: cursor_ok_def initial_render_def INITIAL_SENTENCE_def)

lemma reachable_ok:
  assumes "reachable c"
  shows "cursor_ok (fst c) \<and> list_all (call_ok (fst c)) (snd c)"
  using assms
proof (induction rule: reachable.induct)
  case (mount n c)
  obtain s cs where c: "c = (s, cs)" by (cases c)
  from flush_grown [OF initial_ok, of n None s cs] mount
  show ?case by (simp add: c grown_def)
next
  case (event c n e c')
  obtain s pending where c: "c = (s, pending)" by (cases c)
  from event.hyps(2) obtain s1 pending1 s2 calls where
    d: "dispatch e (s, pending) = Some (s1, pending1)"
    and fl: "flush n (Some s) s1 = Some (s2, calls)"
    and c': "c' = (s2, pending1 @ calls)"
    by (auto simp add: react_def c split: option.splits)
  from event.IH have ok: "cursor_ok s" and calls: "list_all (call_ok s) pending"
    by (simp_all add: c)
  from dispatch_ok [OF ok calls d]
  have ok1: "cursor_ok s1" and calls1: "list_all (call_ok s1) pending1"
    by simp_all
  from flush_grown [OF ok1 fl]
  have g: "grown s1 s2" and new: "list_all (call_ok s2) calls"
    by simp_all
  have "list_all (call_ok s2) pending1"
    using calls1 g by (auto intro: list_all_call_ok_grow simp add: grown_def)
  with g new show ?case by (simp add: c' grown_def)
qed

lemma run_events_reachable:
  "reachable c \<Longrightarrow> run_events n es c = Some c' \<Longrightarrow> reachable c'"
proof (induction es arbitrary: c)
  case Nil
  then show ?case by simp
next
  case (Cons e es)
  then show ?case
    by (auto split: option.splits intro: reachable.event)
qed

text \<open>The renders an event causes always settle, within four.\<close>

lemma effects_keep_angles:
  "rotation (resetVariationsEffect snap c) = rotation c"
  "rightRotation (resetVariationsEffect snap c) = rightRotation c"
  "rotation (fst (leftDialEffect snap c)) = rotation c"
  "rightRotation (fst (leftDialEffect snap c)) = rightRotation c"
  "rotation (rightDialEffect snap c) = rotation c"
  "rightRotation (rightDialEffect snap c) = rightRotation c"
  "rotation (fst (predictEffect snap c)) = rotation c"
  "rightRotation (fst (predictEffect snap c)) = rightRotation c"
  by (simp_all add: resetVariationsEffect_def leftDialEffect_def rightDialEffect_def
        predictEffect_def rotation_def rightRotation_def Let_def)

lemma effects_keep_predicting:
  "isPredicting (resetVariationsEffect snap c) = isPredicting c"
  "isPredicting (fst (leftDialEffect snap c)) = isPredicting c"
  "isPredicting (rightDialEffect snap c) = isPredicting c"
  "isPredicting c \<Longrightarrow> isPredicting (fst (predictEffect snap c))"
  by (simp_all add: resetVariationsEffect_def leftDialEffect_def rightDialEffect_def
        predictEffect_def Let_def)

lemma effects_keep_words:
  "words (resetVariationsEffect snap c) = words c"
  "words (rightDialEffect snap c) = words c"
  "words (fst (predictEffect snap c)) = words c"
  by (simp_all add: resetVariationsEffect_def rightDialEffect_def predictEffect_def Let_def)

lemma effects_keep_cursor:
  "selectedWordIndex (resetVariationsEffect snap c) = selectedWordIndex c"
  "selectedWordIndex (fst (leftDialEffect snap c)) = selectedWordIndex c"
  "selectedWordIndex (fst (predictEffect snap c)) = selectedWordIndex c"
  by (simp_all add: resetVariationsEffect_def leftDialEffect_def predictEffect_def Let_def)

lemma run_effects_unfold:
  "fst (run_effects prev snap) =
     fst (if changed prev snap selectedWordIndex \<or> changed prev snap words
             \<or> changed prev snap isPredicting
          then predictEffect snap
                 (if changed prev snap rightRotation \<or> changed prev snap (\<lambda>s. length (words s))
                  then rightDialEffect snap
                         (fst (if changed prev snap rotation
                               then leftDialEffect snap
                                      (if changed prev snap selectedWordIndex
                                       then resetVariationsEffect snap snap else snap)
                               else (if changed prev snap selectedWordIndex
                                     then resetVariationsEffect snap snap else snap, [])))
                  else fst (if changed prev snap rotation
                            then leftDialEffect snap
                                   (if changed prev snap selectedWordIndex
                                    then resetVariationsEffect snap snap else snap)
                            else (if changed prev snap selectedWordIndex
                                  then resetVariationsEffect snap snap else snap, [])))
          else (if changed prev snap rightRotation \<or> changed prev snap (\<lambda>s. length (words s))
                then rightDialEffect snap
                       (fst (if changed prev snap rotation
                             then leftDialEffect snap
                                    (if changed prev snap selectedWordIndex
                                     then resetVariationsEffect snap snap else snap)
                             else (if changed prev snap selectedWordIndex
                                   then resetVariationsEffect snap snap else snap, [])))
                else fst (if changed prev snap rotation
                          then leftDialEffect snap
                                 (if changed prev snap selectedWordIndex
                                  then resetVariationsEffect snap snap else snap)
                          else (if changed prev snap selectedWordIndex
                                then resetVariationsEffect snap snap else snap, [])), []))"
  by (simp add: run_effects_def Let_def split: prod.splits)

lemma run_effects_angles:
  "rotation (fst (run_effects prev snap)) = rotation snap"
  "rightRotation (fst (run_effects prev snap)) = rightRotation snap"
  unfolding run_effects_unfold by (simp_all add: effects_keep_angles)

lemma run_effects_predicting:
  "isPredicting snap \<Longrightarrow> isPredicting (fst (run_effects prev snap))"
  unfolding run_effects_unfold by (simp add: effects_keep_predicting)

lemma run_effects_words:
  "rotation p = rotation snap \<Longrightarrow> words (fst (run_effects (Some p) snap)) = words snap"
  unfolding run_effects_unfold by (simp add: effects_keep_words changed_def)

lemma run_effects_cursor:
  "rightRotation p = rightRotation snap \<Longrightarrow> length (words p) = length (words snap) \<Longrightarrow>
   selectedWordIndex (fst (run_effects (Some p) snap)) = selectedWordIndex snap"
  unfolding run_effects_unfold by (simp add: effects_keep_cursor changed_def)

lemma run_effects_stable:
  assumes "rotation p = rotation snap" and "rightRotation p = rightRotation snap"
    and "words p = words snap" and "selectedWordIndex p = selectedWordIndex snap"
    and "isPredicting p = isPredicting snap \<or> isPredicting snap"
  shows "fst (run_effects (Some p) snap) = snap"
  using assms unfolding run_effects_unfold
  by (auto simp add: changed_def predictEffect_def)

lemma flush_total: "\<exists>r. flush 4 prev s0 = Some r"
proof -
  define s1 where "s1 = fst (run_effects prev s0)"
  define s2 where "s2 = fst (run_effects (Some s0) s1)"
  define s3 where "s3 = fst (run_effects (Some s1) s2)"
  have a1: "rotation s1 = rotation s0" "rightRotation s1 = rightRotation s0"
    by (simp_all add: s1_def run_effects_angles)
  have a2: "rotation s2 = rotation s1" "rightRotation s2 = rightRotation s1"
    by (simp_all add: s2_def run_effects_angles)
  have a3: "rotation s3 = rotation s2" "rightRotation s3 = rightRotation s2"
    by (simp_all add: s3_def run_effects_angles)
  have w2: "words s2 = words s1"
    unfolding s2_def using a1(1) [symmetric] by (rule run_effects_words)
  have w3: "words s3 = words s2"
    unfolding s3_def using a2(1) [symmetric] by (rule run_effects_words)
  have c3: "selectedWordIndex s3 = selectedWordIndex s2"
    unfolding s3_def using a2(2) [symmetric] by (rule run_effects_cursor) (simp add: w2)
  have p3: "isPredicting s2 \<Longrightarrow> isPredicting s3"
    unfolding s3_def by (rule run_effects_predicting)
  have "fst (run_effects (Some s2) s3) = s3"
    using a3 w3 c3 p3 by (intro run_effects_stable) auto
  then show ?thesis
    by (auto simp add: eval_nat_numeral s1_def s2_def s3_def split: prod.splits option.splits)
qed

text \<open>More renders than needed change nothing, and four are always enough.\<close>

lemma flush_mono:
  "flush n prev snap = Some r \<Longrightarrow> n \<le> m \<Longrightarrow> flush m prev snap = Some r"
proof (induction n arbitrary: m prev snap r)
  case 0
  then show ?case by simp
next
  case (Suc n)
  from Suc.prems(2) obtain k where m: "m = Suc k" and le: "n \<le> k"
    by (cases m) simp_all
  obtain cur fs where e: "run_effects prev snap = (cur, fs)"
    by (cases "run_effects prev snap")
  show ?case
  proof (cases "cur = snap")
    case True
    from Suc.prems(1) have "r = (cur, fs)"
      by (simp add: e True)
    then show ?thesis by (simp add: m e True)
  next
    case False
    with Suc.prems(1) e obtain s gs where
      inner: "flush n (Some snap) cur = Some (s, gs)" and r: "r = (s, fs @ gs)"
      by (auto split: option.splits)
    from Suc.IH [OF inner le] have "flush k (Some snap) cur = Some (s, gs)" .
    then show ?thesis by (simp add: m e False r)
  qed
qed

lemma react_mono:
  "react n e c = Some r \<Longrightarrow> n \<le> m \<Longrightarrow> react m e c = Some r"
  by (auto simp add: react_def split: option.splits prod.splits dest: flush_mono)

lemma flush_four: "flush n prev snap = Some r \<Longrightarrow> flush 4 prev snap = Some r"
proof (cases "n \<le> 4")
  case True
  assume "flush n prev snap = Some r"
  then show ?thesis using True by (rule flush_mono)
next
  case False
  assume run: "flush n prev snap = Some r"
  obtain r' where four: "flush 4 prev snap = Some r'"
    using flush_total [of prev snap] by auto
  from False have "4 \<le> n" by simp
  with four have "flush n prev snap = Some r'" by (rule flush_mono)
  with run four show ?thesis by simp
qed

lemma to_sentinel: "run_events 4 [WsMessage (Encoder_data 0 300)] mounted = Some at_sentinel"
  by code_simp

lemma turnRight_clamped:
  assumes "cursor_ok s"
  shows "selectedWordIndex (turnRight d s) =
     max 0 (min (int (length (words s)))
              (selectedWordIndex s + move (rightRotation s + d - lastRightRotationRef s)))"
proof -
  define c where "c = rightRotation s + d - lastRightRotationRef s"
  define s1 where "s1 = s\<lparr>rightMouseRotation := rightMouseRotation s + d\<rparr>"
  have f: "rightRotation s1 - lastRightRotationRef s1 = c" "selectedWordIndex s1 = selectedWordIndex s"
    "words s1 = words s"
    by (simp_all add: s1_def c_def rightRotation_def)
  have z: "move c = 0" if "\<not> 0 < \<lfloor>\<bar>c\<bar> / 60\<rfloor>"
  proof -
    have "0 \<le> \<lfloor>\<bar>c\<bar> / 60\<rfloor>" by simp
    with that have "\<lfloor>\<bar>c\<bar> / 60\<rfloor> = 0" by linarith
    then show ?thesis unfolding move_def by (simp only: mult_zero_left)
  qed
  have "selectedWordIndex (turnRight d s) = selectedWordIndex (rightDialEffect s1 s1)"
    by (simp add: turnRight_def s1_def Let_def)
  also have "\<dots> = max 0 (min (int (length (words s))) (selectedWordIndex s + move c))"
    unfolding rightDialEffect_fields(1) Let_def f
    using assms z by (auto simp add: cursor_ok_def simp del: zero_less_floor)
  finally show ?thesis by (simp only: c_def)
qed

text \<open>
  C8. In every state the page can reach by mouse events, relay messages and settled
  fetches, the cursor is an integer between 0 and the length of the sentence, both
  included. A change of the right dial's angle gives the computed index cut off below at
  0 and above at the length of the sentence. Every event that can be handled leads to
  such a state again.
\<close>

theorem cursor_within_sentence:
  assumes "reachable c"
  shows "0 \<le> selectedWordIndex (fst c)
     \<and> selectedWordIndex (fst c) \<le> int (length (words (fst c)))
     \<and> (\<forall>d. selectedWordIndex (turnRight d (fst c)) =
              max 0 (min (int (length (words (fst c))))
                       (selectedWordIndex (fst c)
                        + move (rightRotation (fst c) + d - lastRightRotationRef (fst c)))))
     \<and> (\<forall>e. dispatch e c \<noteq> None \<longrightarrow> (\<exists>c'. react 4 e c = Some c' \<and> reachable c'))"
proof -
  have ok: "cursor_ok (fst c)"
    using reachable_ok [OF assms] by simp
  have next_state: "\<exists>c'. react 4 e c = Some c' \<and> reachable c'" if "dispatch e c \<noteq> None" for e
  proof -
    from that obtain s1 pending1 where d: "dispatch e c = Some (s1, pending1)" by auto
    obtain s2 calls where "flush 4 (Some (fst c)) s1 = Some (s2, calls)"
      using flush_total [of "Some (fst c)" s1] by auto
    then have r: "react 4 e c = Some (s2, pending1 @ calls)"
      by (simp add: react_def d)
    with assms have "reachable (s2, pending1 @ calls)"
      by (rule reachable.event)
    with r show ?thesis by simp
  qed
  show ?thesis
    using ok next_state turnRight_clamped [OF ok] by (simp add: cursor_ok_def)
qed

theorem cursor_within_sentence_witness:
  "reachable at_sentinel
   \<and> selectedWordIndex (fst at_sentinel) = 18
   \<and> length (words (fst at_sentinel)) = 18
   \<and> 0 \<le> selectedWordIndex (fst at_sentinel)
   \<and> selectedWordIndex (fst at_sentinel) \<le> int (length (words (fst at_sentinel)))"
proof -
  have "reachable mounted"
    using mount_flush by (rule reachable.mount)
  then have r: "reachable at_sentinel"
    using to_sentinel by (rule run_events_reachable)
  have v: "selectedWordIndex (fst at_sentinel) = 18" "length (words (fst at_sentinel)) = 18"
    by (simp_all add: at_sentinel_def initial_render_def INITIAL_SENTENCE_def)
  from cursor_within_sentence [OF r] r v show ?thesis by blast
qed

end
